theory Spec2Isabelle
  imports Main "HOL-Library.Sublist"
begin

section \<open>JavaScript values, errors and outcomes\<close>

text \<open>
  The repository is JavaScript. A method either returns a value or throws; a throw can
  happen after the receiver has been mutated, so every operation returns its outcome
  together with the state it leaves behind.

  Keys and identifier arguments are dynamically typed in the source: the same parameter
  receives a key string at one call site and a document identifier at another
  (\<^verbatim>\<open>tickMany\<close> passes them to \<^verbatim>\<open>tick\<close> in the other order). \<open>jsval\<close> holds the
  values that flow through these parameters: strings, numbers and arrays of numbers.
\<close>

datatype jsval = Str string | Num nat | Arr "nat list"

datatype error = TypeError | Error

datatype 'a outcome = Return 'a | Throw error

section \<open>BitmapManager (src/app/services/canvasdb/index/lib/BitmapManager.js)\<close>

subsection \<open>Bitmap objects\<close>

text \<open>
  A \<^verbatim>\<open>RoaringBitmap32\<close> is a mutable object holding a set of unsigned integers. Objects
  live in a store of cells addressed by references; \<^verbatim>\<open>new RoaringBitmap32()\<close> takes
  the next free reference. \<^verbatim>\<open>andInPlace\<close> and \<^verbatim>\<open>add\<close> overwrite the cell of the
  receiver, so two variables holding the same reference see the same change.

  The roaring library is not part of the repository. \<^verbatim>\<open>serialize\<close> and
  \<^verbatim>\<open>deserialize\<close> are inverse. The set holds unsigned 32-bit integers: \<^verbatim>\<open>add\<close>
  takes one of them and ignores any other argument (a string, an array, a number out of
  range); \<^verbatim>\<open>addMany\<close> takes an array and stores each element reduced modulo
  \<open>2 ^ 32\<close>, and raises \<^verbatim>\<open>TypeError\<close> on an argument that cannot be iterated as numbers.
\<close>

type_synonym ref = nat

record heap =
  objs :: "ref \<Rightarrow> nat set"
  next_ref :: ref

datatype blob = Blob "nat set"

definition serialize :: "nat set \<Rightarrow> blob" where
  "serialize s = Blob s"

fun deserialize :: "blob \<Rightarrow> nat set" where
  "deserialize (Blob s) = s"

definition new_bitmap :: "nat set \<Rightarrow> 'a heap_scheme \<Rightarrow> ref \<times> 'a heap_scheme" where
  "new_bitmap s h = (next_ref h, h\<lparr>objs := (objs h)(next_ref h := s), next_ref := Suc (next_ref h)\<rparr>)"

fun roaring_add :: "jsval \<Rightarrow> nat set \<Rightarrow> error + nat set" where
  "roaring_add (Num n) s = Inr (if n < 2 ^ 32 then insert n s else s)"
| "roaring_add (Str v) s = Inr s"
| "roaring_add (Arr ns) s = Inr s"

fun roaring_addMany :: "jsval \<Rightarrow> nat set \<Rightarrow> error + nat set" where
  "roaring_addMany (Arr ns) s = Inr (set (map (\<lambda>n. n mod 2 ^ 32) ns) \<union> s)"
| "roaring_addMany (Str v) s = Inl TypeError"
| "roaring_addMany (Num n) s = Inl TypeError"

subsection \<open>The manager's state\<close>

text \<open>
  The constructor stores its first two arguments as \<^verbatim>\<open>#db\<close> and \<^verbatim>\<open>#cache\<close> without
  checking them. The backing store is a map from keys to serialized blobs (a blob is a
  buffer object, hence truthy). The cache argument is "a suitable caching backend with a
  Map() like interface" by the constructor's comment, a map from keys to bitmap objects;
  \<^verbatim>\<open>IndexD\<close> passes a string there instead, on which \<^verbatim>\<open>has\<close> is not a
  function. \<open>has_calls\<close> records the keys passed to \<^verbatim>\<open>#cache.has\<close>, the first thing
  \<^verbatim>\<open>getBitmap\<close> does: it is the call log of a mock cache.
\<close>

datatype cache = CacheMap "jsval \<rightharpoonup> ref" | CacheStr string

record bm = heap +
  db :: "jsval \<rightharpoonup> blob"
  cache :: cache
  has_calls :: "jsval list"

text \<open>\<^verbatim>\<open>#loadBitmapFromDb\<close>, lines 388-398.\<close>

definition loadBitmapFromDb :: "bm \<Rightarrow> jsval \<Rightarrow> ref option \<times> bm" where
  "loadBitmapFromDb st key =
     (case db st key of
        None \<Rightarrow> (None, st)
      | Some bitmapData \<Rightarrow>
          (case new_bitmap {} st of
             (r, st1) \<Rightarrow> (Some r, st1\<lparr>objs := (objs st1)(r := deserialize bitmapData)\<rparr>)))"

text \<open>\<^verbatim>\<open>getBitmap\<close>, lines 89-101. Nothing in the class ever calls \<^verbatim>\<open>#cache.set\<close>.\<close>

definition getBitmap :: "bm \<Rightarrow> jsval \<Rightarrow> ref option outcome \<times> bm" where
  "getBitmap st key =
     (case cache st of
        CacheStr v \<Rightarrow> (Throw TypeError, st)
      | CacheMap c \<Rightarrow>
          (let st1 = st\<lparr>has_calls := has_calls st @ [key]\<rparr> in
           case c key of
             Some r \<Rightarrow> (Return (Some r), st1)
           | None \<Rightarrow>
               (case db st1 key of
                  None \<Rightarrow> (Return None, st1)
                | Some v \<Rightarrow> (case loadBitmapFromDb st1 key of (r, st2) \<Rightarrow> (Return r, st2)))))"

text \<open>\<^verbatim>\<open>#saveBitmapToDb\<close>, lines 374-386: serialize the object and \<^verbatim>\<open>#db.set\<close> it.\<close>

definition saveBitmapToDb :: "bm \<Rightarrow> jsval \<Rightarrow> ref \<Rightarrow> bm" where
  "saveBitmapToDb st key r = st\<lparr>db := (db st)(key \<mapsto> serialize (objs st r))\<rparr>"

subsection \<open>tick, tickSync, tickMany, tickManySync\<close>

datatype tickres = TFalse | TBitmap ref

text \<open>
  \<^verbatim>\<open>tick(idOrArray, bitmapKey)\<close>, lines 124-136: the identifier comes first, the key
  second, and there is no auto-create parameter.
\<close>

definition tick :: "bm \<Rightarrow> jsval \<Rightarrow> jsval \<Rightarrow> tickres outcome \<times> bm" where
  "tick st idOrArray bitmapKey =
     (case getBitmap st bitmapKey of
        (Throw e, st1) \<Rightarrow> (Throw e, st1)
      | (Return None, st1) \<Rightarrow> (Return TFalse, st1)
      | (Return (Some r), st1) \<Rightarrow>
          (case roaring_add idOrArray (objs st1 r) of
             Inl e \<Rightarrow> (Throw e, st1)
           | Inr s \<Rightarrow>
               (Return (TBitmap r), saveBitmapToDb (st1\<lparr>objs := (objs st1)(r := s)\<rparr>) bitmapKey r)))"

text \<open>
  \<^verbatim>\<open>tickSync(key, oidArrayOrBitmap, autoCreateBitmap = true, implicitSave = true)\<close>,
  lines 286-303: the key comes first.
\<close>

definition tickSync :: "bm \<Rightarrow> jsval \<Rightarrow> jsval \<Rightarrow> bool \<Rightarrow> bool \<Rightarrow> tickres outcome \<times> bm" where
  "tickSync st key oidArrayOrBitmap autoCreateBitmap implicitSave =
     (case getBitmap st key of
        (Throw e, st1) \<Rightarrow> (Throw e, st1)
      | (Return found, st1) \<Rightarrow>
          (if found = None \<and> \<not> autoCreateBitmap then (Return TFalse, st1)
           else
             (case (case found of Some r \<Rightarrow> (r, st1) | None \<Rightarrow> new_bitmap {} st1) of
                (r, st2) \<Rightarrow>
                  (case roaring_addMany oidArrayOrBitmap (objs st2 r) of
                     Inl e \<Rightarrow> (Throw e, st2)
                   | Inr s \<Rightarrow>
                       (let st3 = st2\<lparr>objs := (objs st2)(r := s)\<rparr> in
                        (Return (TBitmap r),
                         if implicitSave then saveBitmapToDb st3 key r else st3))))))"

text \<open>
  \<^verbatim>\<open>tickMany\<close>, lines 314-324. The callback is
  \<^verbatim>\<open>key => this.tick(key, oidArrayOrBitmap, autoCreateBitmaps, implicitSave)\<close>: the key
  is bound to \<^verbatim>\<open>tick\<close>'s \<^verbatim>\<open>idOrArray\<close> and the identifiers to its
  \<^verbatim>\<open>bitmapKey\<close>; the last two arguments have no parameter to receive them. A throw in
  the callback ends the \<^verbatim>\<open>map\<close> and rejects the promise.
\<close>

fun tickMany_map :: "bm \<Rightarrow> jsval list \<Rightarrow> jsval \<Rightarrow> tickres list outcome \<times> bm" where
  "tickMany_map st [] oidArrayOrBitmap = (Return [], st)"
| "tickMany_map st (key # keys) oidArrayOrBitmap =
     (case tick st key oidArrayOrBitmap of
        (Throw e, st1) \<Rightarrow> (Throw e, st1)
      | (Return r, st1) \<Rightarrow>
          (case tickMany_map st1 keys oidArrayOrBitmap of
             (Throw e, st2) \<Rightarrow> (Throw e, st2)
           | (Return rs, st2) \<Rightarrow> (Return (r # rs), st2)))"

definition tickMany :: "bm \<Rightarrow> jsval list \<Rightarrow> jsval \<Rightarrow> bool \<Rightarrow> bool \<Rightarrow> tickres list outcome \<times> bm" where
  "tickMany st keyArray oidArrayOrBitmap autoCreateBitmaps implicitSave =
     (if keyArray = [] then (Throw TypeError, st)
      else tickMany_map st keyArray oidArrayOrBitmap)"

text \<open>\<^verbatim>\<open>tickManySync\<close>, lines 335-351, calls \<^verbatim>\<open>tickSync(key, oidArrayOrBitmap, ...)\<close>.\<close>

fun tickManySync_map :: "bm \<Rightarrow> jsval list \<Rightarrow> jsval \<Rightarrow> bool \<Rightarrow> bool \<Rightarrow> tickres list outcome \<times> bm" where
  "tickManySync_map st [] oids ac sv = (Return [], st)"
| "tickManySync_map st (key # keys) oids ac sv =
     (case tickSync st key oids ac sv of
        (Throw e, st1) \<Rightarrow> (Throw e, st1)
      | (Return r, st1) \<Rightarrow>
          (case tickManySync_map st1 keys oids ac sv of
             (Throw e, st2) \<Rightarrow> (Throw e, st2)
           | (Return rs, st2) \<Rightarrow> (Return (r # rs), st2)))"

definition tickManySync :: "bm \<Rightarrow> jsval list \<Rightarrow> jsval \<Rightarrow> bool \<Rightarrow> bool \<Rightarrow> tickres list outcome \<times> bm" where
  "tickManySync st keyArray oidArrayOrBitmap autoCreateBitmaps implicitSave =
     (if keyArray = [] then (Throw TypeError, st)
      else
        (case (case oidArrayOrBitmap of Num n \<Rightarrow> Some (Arr [n]) | Arr ns \<Rightarrow> Some (Arr ns)
                 | Str v \<Rightarrow> None) of
           None \<Rightarrow> (Throw TypeError, st)
         | Some oids \<Rightarrow> tickManySync_map st keyArray oids autoCreateBitmaps implicitSave))"

subsection \<open>AND\<close>

text \<open>
  The instance method, lines 169-193, resolves each key through \<^verbatim>\<open>getBitmap\<close>; the
  static method, lines 202-225, is given the bitmap objects (an entry may be null).
  \<^verbatim>\<open>partial\<close> is the reference of the first bitmap met; \<^verbatim>\<open>partial.andInPlace(bitmap)\<close>
  overwrites the object behind it.
\<close>

definition andInPlace :: "ref \<Rightarrow> ref \<Rightarrow> 'a heap_scheme \<Rightarrow> 'a heap_scheme" where
  "andInPlace p b h = h\<lparr>objs := (objs h)(p := objs h p \<inter> objs h b)\<rparr>"

definition return_new :: "'a heap_scheme \<Rightarrow> ref outcome \<times> 'a heap_scheme" where
  "return_new h = (case new_bitmap {} h of (r, h1) \<Rightarrow> (Return r, h1))"

fun AND_loop :: "bm \<Rightarrow> ref option \<Rightarrow> jsval list \<Rightarrow> ref outcome \<times> bm" where
  "AND_loop st partial [] =
     (case partial of Some p \<Rightarrow> (Return p, st) | None \<Rightarrow> return_new st)"
| "AND_loop st partial (key # keys) =
     (case getBitmap st key of
        (Throw e, st1) \<Rightarrow> (Throw e, st1)
      | (Return None, st1) \<Rightarrow> return_new st1
      | (Return (Some b), st1) \<Rightarrow>
          (if objs st1 b = {} then return_new st1
           else
             (case partial of
                None \<Rightarrow> AND_loop st1 (Some b) keys
              | Some p \<Rightarrow> AND_loop (andInPlace p b st1) partial keys)))"

definition AND :: "bm \<Rightarrow> jsval list \<Rightarrow> ref outcome \<times> bm" where
  "AND st keyArray = (if keyArray = [] then return_new st else AND_loop st None keyArray)"

fun AND_static_loop :: "'a heap_scheme \<Rightarrow> ref option \<Rightarrow> ref option list \<Rightarrow> ref outcome \<times> 'a heap_scheme" where
  "AND_static_loop h partial [] =
     (case partial of Some p \<Rightarrow> (Return p, h) | None \<Rightarrow> return_new h)"
| "AND_static_loop h partial (bitmap # bitmaps) =
     (case bitmap of
        None \<Rightarrow> return_new h
      | Some b \<Rightarrow>
          (if objs h b = {} then return_new h
           else
             (case partial of
                None \<Rightarrow> AND_static_loop h (Some b) bitmaps
              | Some p \<Rightarrow> AND_static_loop (andInPlace p b h) partial bitmaps)))"

definition AND_static :: "'a heap_scheme \<Rightarrow> ref option list \<Rightarrow> ref outcome \<times> 'a heap_scheme" where
  "AND_static h roaringBitmapArray =
     (if roaringBitmapArray = [] then return_new h
      else AND_static_loop h None roaringBitmapArray)"

subsection \<open>What a key resolves to\<close>

text \<open>
  \<open>cached st k\<close> is \<^verbatim>\<open>#cache.get(k)\<close>. \<open>resolves st k\<close> is the set held by the object
  that \<^verbatim>\<open>getBitmap(k)\<close> hands out in state \<open>st\<close>: the cached object's current content,
  else the deserialized blob of the backing store, else nothing. \<open>result_set\<close> reads the
  content of a returned bitmap object.
\<close>

definition cached :: "bm \<Rightarrow> jsval \<Rightarrow> ref option" where
  "cached st k = (case cache st of CacheMap c \<Rightarrow> c k | CacheStr v \<Rightarrow> None)"

definition resolves :: "bm \<Rightarrow> jsval \<Rightarrow> nat set option" where
  "resolves st k =
     (case cached st k of
        Some r \<Rightarrow> Some (objs st r)
      | None \<Rightarrow> map_option deserialize (db st k))"

fun result_set :: "ref outcome \<times> 'a heap_scheme \<Rightarrow> nat set option" where
  "result_set (Return r, h) = Some (objs h r)"
| "result_set (Throw e, h) = None"

text \<open>
  A manager whose cache is a map, and whose cached objects have all been allocated: a
  new object never takes the reference of a cached one.
\<close>

definition heap_ok :: "bm \<Rightarrow> bool" where
  "heap_ok st = (\<exists>c. cache st = CacheMap c \<and> (\<forall>k r. c k = Some r \<longrightarrow> r < next_ref st))"


subsection \<open>Concrete managers\<close>

definition empty_store :: bm where
  "empty_store = \<lparr>objs = (\<lambda>r. {}), next_ref = 0, db = Map.empty,
                  cache = CacheMap Map.empty, has_calls = []\<rparr>"

text \<open>A manager whose backing store holds the set {1} under the key a; nothing is cached.\<close>

definition one_key_store :: bm where
  "one_key_store = empty_store\<lparr>db := [Str ''a'' \<mapsto> Blob {1}]\<rparr>"

text \<open>
  A manager with two cached sets (a and b, the objects 2 and 3) and two persisted ones (c,
  and the empty set e).
\<close>

definition and_store :: bm where
  "and_store = \<lparr>objs = (\<lambda>r. {})(2 := {1000, 1001}, 3 := {1001, 1002}), next_ref = 4,
       db = [Str ''c'' \<mapsto> Blob {1001, 1003}, Str ''e'' \<mapsto> Blob {}],
       cache = CacheMap [Str ''a'' \<mapsto> 2, Str ''b'' \<mapsto> 3], has_calls = []\<rparr>"


text \<open>A manager whose backing store holds the empty set under the key a.\<close>

definition empty_set_store :: bm where
  "empty_set_store = empty_store\<lparr>db := [Str ''a'' \<mapsto> Blob {}]\<rparr>"

section \<open>IndexD (src/unnamed/part_002)\<close>

subsection \<open>Documents and the index state\<close>

text \<open>
  Modelled from the spec: the \<^verbatim>\<open>Document\<close> class (\<^verbatim>\<open>schemas/Document\<close>) and the
  \<^verbatim>\<open>Db\<close> datasets are not in the source tree. A document record is
  \<^verbatim>\<open>{ id, schemaVersion, type, hashes: { sha1 }, data }\<close>; the model keeps the identifier,
  the sha1 content hash and the payload, and \<^verbatim>\<open>new Document(doc)\<close> carries them over.
  A dataset is a map with \<^verbatim>\<open>get\<close> and \<^verbatim>\<open>put\<close>. \<^verbatim>\<open>db.getKeysCount()\<close> is read from the
  state.

  The argument of \<^verbatim>\<open>insertDocument\<close> may come without an identifier, or with the falsy
  identifier 0.
\<close>

record docarg =
  arg_id :: "nat option"
  arg_sha1 :: string
  arg_data :: string

record document =
  doc_id :: nat
  sha1 :: string
  data :: string

text \<open>
  The constructor, lines 46-118: the datasets \<^verbatim>\<open>documents\<close>, \<^verbatim>\<open>bitmaps\<close> and
  \<^verbatim>\<open>hash2oid\<close>, and the managers
  \<^verbatim>\<open>bmContexts = new BitmapManager(this.bitmaps, 'contexts', {...})\<close> and
  \<^verbatim>\<open>bmFeatures = new BitmapManager(this.bitmaps, 'features', {...})\<close>. The managers
  share the dataset \<^verbatim>\<open>bitmaps\<close> as their backing store, and each receives a string as
  its cache argument. \<open>manager\<close> is the manager built with a given cache argument, on the
  current dataset and objects; \<open>absorb\<close> writes back what a call on it changed.
\<close>

record indexd = heap +
  documents :: "nat \<rightharpoonup> document"
  hash2oid :: "string \<rightharpoonup> nat"
  bitmaps :: "jsval \<rightharpoonup> blob"
  keysCount :: nat

definition manager :: "string \<Rightarrow> indexd \<Rightarrow> bm" where
  "manager cacheArg st =
     \<lparr>objs = objs st, next_ref = next_ref st, db = bitmaps st, cache = CacheStr cacheArg,
      has_calls = []\<rparr>"

definition absorb :: "bm \<Rightarrow> indexd \<Rightarrow> indexd" where
  "absorb m st = st\<lparr>objs := objs m, next_ref := next_ref m, bitmaps := db m\<rparr>"

definition bmContexts :: "indexd \<Rightarrow> bm" where
  "bmContexts st = manager ''contexts'' st"

definition bmFeatures :: "indexd \<Rightarrow> bm" where
  "bmFeatures st = manager ''features'' st"

subsection \<open>insertDocument and its helpers\<close>

text \<open>\<^verbatim>\<open>#genDocumentID\<close>, lines 303-306: \<^verbatim>\<open>id++\<close> returns the value before the increment.\<close>

definition genDocumentID :: "indexd \<Rightarrow> nat" where
  "genDocumentID st = keysCount st + 1000"

text \<open>\<^verbatim>\<open>#validateDocument\<close>, lines 293-301.\<close>

definition validateDocument :: "indexd \<Rightarrow> docarg \<Rightarrow> document" where
  "validateDocument st doc =
     \<lparr>doc_id = (case arg_id doc of
                  None \<Rightarrow> genDocumentID st
                | Some n \<Rightarrow> if n = 0 then genDocumentID st else n),
      sha1 = arg_sha1 doc, data = arg_data doc\<rparr>"

text \<open>\<^verbatim>\<open>#extractDocumentFeatures\<close>, lines 308-311.\<close>

definition extractDocumentFeatures :: "document \<Rightarrow> jsval list" where
  "extractDocumentFeatures doc = []"

datatype insert_result = RTrue | RDoc document

text \<open>\<^verbatim>\<open>updateDocument\<close>, lines 221-223: \<^verbatim>\<open>return true\<close>.\<close>

definition updateDocument :: "indexd \<Rightarrow> document \<Rightarrow> jsval list \<Rightarrow> jsval list \<Rightarrow> insert_result outcome \<times> indexd" where
  "updateDocument st doc contextArray featureArray = (Return RTrue, st)"

text \<open>
  \<^verbatim>\<open>insertDocument\<close>, lines 125-167. The three elements of the array given to
  \<^verbatim>\<open>Promise.all\<close> are evaluated in order, so \<^verbatim>\<open>documents.put\<close> and both
  \<^verbatim>\<open>tickMany\<close> calls are issued whatever the others do; if one of the promises is
  rejected the \<^verbatim>\<open>await\<close> throws, the \<^verbatim>\<open>catch\<close> block throws the error again, and
  \<^verbatim>\<open>hash2oid.put\<close> is not reached. The test \<^verbatim>\<open>if (res)\<close> holds for a stored
  identifier other than 0.
\<close>

definition insertDocument :: "indexd \<Rightarrow> docarg \<Rightarrow> jsval list \<Rightarrow> jsval list \<Rightarrow> insert_result outcome \<times> indexd" where
  "insertDocument st doc contextArray featureArray =
     (let parsed = validateDocument st doc;
          extractedFeatures = extractDocumentFeatures parsed;
          combinedFeatureArray = featureArray @ extractedFeatures
      in case hash2oid st (sha1 parsed) of
           Some (Suc n) \<Rightarrow> updateDocument st parsed contextArray combinedFeatureArray
         | _ \<Rightarrow>
            (let st1 = st\<lparr>documents := (documents st)(doc_id parsed \<mapsto> parsed)\<rparr>;
                 (r1, m1) = tickMany (bmContexts st1) contextArray (Num (doc_id parsed)) True True;
                 st2 = absorb m1 st1;
                 (r2, m2) = tickMany (bmFeatures st2) combinedFeatureArray (Num (doc_id parsed)) True True;
                 st3 = absorb m2 st2
             in case r1 of
                  Throw e \<Rightarrow> (Throw e, st3)
                | Return t1 \<Rightarrow>
                    (case r2 of
                       Throw e \<Rightarrow> (Throw e, st3)
                     | Return t2 \<Rightarrow>
                         (Return (RDoc parsed),
                          st3\<lparr>hash2oid := (hash2oid st3)(sha1 parsed \<mapsto> doc_id parsed)\<rparr>))))"

text \<open>\<^verbatim>\<open>getDocumentByHash(hash, hashType = '')\<close>, lines 171-181.\<close>

definition getDocumentByHash :: "indexd \<Rightarrow> string \<Rightarrow> string \<Rightarrow> document option" where
  "getDocumentByHash st hash hashType =
     (let fullHash = (if hashType \<noteq> [] then hashType @ ''/'' @ hash else hash)
      in case hash2oid st fullHash of
           Some (Suc n) \<Rightarrow> documents st (Suc n)
         | _ \<Rightarrow> None)"

subsection \<open>Schemas\<close>

text \<open>
  \<^verbatim>\<open>DOCUMENT_SCHEMAS\<close>, lines 26-33, has the keys default, file, tab and note. The
  values are the JSON objects of the schema classes; only which schema a key names
  matters here. \<^verbatim>\<open>DOCUMENT_SCHEMAS\<close> is a plain object, so \<^verbatim>\<open>DOCUMENT_SCHEMAS[name]\<close>
  also finds the members inherited from \<^verbatim>\<open>Object.prototype\<close>, all of them truthy.
\<close>

datatype schema = DocumentSchema | FileSchema | TabSchema | NoteSchema | Inherited string

definition DOCUMENT_SCHEMAS :: "(string \<times> schema) list" where
  "DOCUMENT_SCHEMAS =
     [(''default'', DocumentSchema), (''file'', FileSchema), (''tab'', TabSchema),
      (''note'', NoteSchema)]"

definition object_prototype_names :: "string list" where
  "object_prototype_names =
     [''constructor'', ''__proto__'', ''hasOwnProperty'', ''isPrototypeOf'',
      ''propertyIsEnumerable'', ''toLocaleString'', ''toString'', ''valueOf'',
      ''__defineGetter__'', ''__defineSetter__'', ''__lookupGetter__'', ''__lookupSetter__'']"

definition schema_property :: "string \<Rightarrow> schema option" where
  "schema_property name =
     (case map_of DOCUMENT_SCHEMAS name of
        Some v \<Rightarrow> Some v
      | None \<Rightarrow> if name \<in> set object_prototype_names then Some (Inherited name) else None)"

text \<open>\<^verbatim>\<open>String.prototype.split\<close> with a one-character separator.\<close>

fun split_on :: "char \<Rightarrow> string \<Rightarrow> string list" where
  "split_on c [] = [[]]"
| "split_on c (x # xs) =
     (if x = c then [] # split_on c xs
      else (case split_on c xs of
              w # ws \<Rightarrow> (x # w) # ws
            | [] \<Rightarrow> [[x]]))"

text \<open>\<^verbatim>\<open>hasDocumentSchema\<close>, line 270, and \<^verbatim>\<open>getDocumentSchema\<close>, lines 272-277.\<close>

definition hasDocumentSchema :: "string \<Rightarrow> bool" where
  "hasDocumentSchema schema = (schema_property schema \<noteq> None)"

definition getDocumentSchema :: "string \<Rightarrow> schema option" where
  "getDocumentSchema schema =
     (let schema1 = (if CHR ''/'' \<in> set schema then last (split_on CHR ''/'' schema) else schema)
      in schema_property schema1)"

subsection \<open>Concrete index states\<close>

definition empty_index :: indexd where
  "empty_index = \<lparr>objs = (\<lambda>r. {}), next_ref = 0, documents = Map.empty, hash2oid = Map.empty,
                  bitmaps = Map.empty, keysCount = 0\<rparr>"

definition first_doc :: docarg where
  "first_doc = \<lparr>arg_id = Some 1000, arg_sha1 = ''H'', arg_data = ''first''\<rparr>"

definition second_doc :: docarg where
  "second_doc = \<lparr>arg_id = Some 1001, arg_sha1 = ''H'', arg_data = ''second''\<rparr>"

definition after_first :: indexd where
  "after_first = snd (insertDocument empty_index first_doc [] [])"

definition after_second :: indexd where
  "after_second = snd (insertDocument after_first second_doc [] [])"

definition after_tagged :: indexd where
  "after_tagged = snd (insertDocument empty_index first_doc [Str ''work''] [Str ''note''])"

section \<open>Context tree (src/unnamed/part_000)\<close>

subsection \<open>Layers and the layer registry\<close>

text \<open>
  Modelled from the spec: the classes \<^verbatim>\<open>Layer\<close>, \<^verbatim>\<open>LayerIndex\<close> and \<^verbatim>\<open>TreeIndex\<close> are
  not in the source tree. A layer has a stable identifier and a name. The registry
  resolves a name to a layer record (\<^verbatim>\<open>getLayerByName\<close>), an identifier back to its
  record (\<^verbatim>\<open>getLayerByID\<close>), and creates a layer on demand (\<^verbatim>\<open>createLayer\<close>); it owns
  identifier allocation. The registry is the list of its layers, a lookup returns the
  first match, and the identifier of a new layer is chosen by a function of the registry
  that the tree does not know. \<^verbatim>\<open>TreeIndex\<close> is a key-value store of which only the
  key tree is used.
\<close>

record layer =
  layer_id :: string
  layer_name :: string

definition getLayerByName :: "layer list \<Rightarrow> string \<Rightarrow> layer option" where
  "getLayerByName ls name = find (\<lambda>l. layer_name l = name) ls"

definition getLayerByID :: "layer list \<Rightarrow> string \<Rightarrow> layer option" where
  "getLayerByID ls i = find (\<lambda>l. layer_id l = i) ls"

definition createLayer :: "(layer list \<Rightarrow> string \<Rightarrow> string) \<Rightarrow> layer list \<Rightarrow> string \<Rightarrow> layer \<times> layer list" where
  "createLayer fresh ls name =
     (let l = \<lparr>layer_id = fresh ls name, layer_name = name\<rparr> in (l, ls @ [l]))"

text \<open>The default root layer, lines 20-28.\<close>

definition rootLayer :: layer where
  "rootLayer = \<lparr>layer_id = ''/'', layer_name = ''universe''\<rparr>"

subsection \<open>TreeNode, lines 35-70\<close>

text \<open>
  \<^verbatim>\<open>children\<close> is a \<^verbatim>\<open>Map\<close> from a child's identifier to the child, kept in insertion
  order. The only write to it is \<^verbatim>\<open>this.children.set(child.id, child)\<close> in
  \<^verbatim>\<open>addChild\<close>, so a key is always the identifier of its value: the map is the list of
  its values, looked up by their identifiers.
\<close>

datatype node = TreeNode (node_id: string) (payload: layer) (children: "node list")

definition new_TreeNode :: "string \<Rightarrow> layer option \<Rightarrow> error + node" where
  "new_TreeNode i p =
     (if i = [] then Inl Error
      else case p of None \<Rightarrow> Inl Error | Some l \<Rightarrow> Inr (TreeNode i l []))"

definition hasChildren :: "node \<Rightarrow> bool" where
  "hasChildren n = (children n \<noteq> [])"

definition getChild :: "node \<Rightarrow> string \<Rightarrow> node option" where
  "getChild n i = find (\<lambda>c. node_id c = i) (children n)"

definition hasChild :: "node \<Rightarrow> string \<Rightarrow> bool" where
  "hasChild n i = (getChild n i \<noteq> None)"

definition addChild :: "node \<Rightarrow> node \<Rightarrow> node" where
  "addChild n child =
     (if hasChild n (node_id child) then n
      else TreeNode (node_id n) (payload n) (children n @ [child]))"

definition removeChild :: "node \<Rightarrow> string \<Rightarrow> node" where
  "removeChild n i = TreeNode (node_id n) (payload n) (filter (\<lambda>c. node_id c \<noteq> i) (children n))"

subsection \<open>Node objects inside the tree\<close>

text \<open>
  The methods of \<^verbatim>\<open>Tree\<close> hold references to node objects and change them in place. A
  node object of the tree is named by the identifiers on the way from the root to it;
  \<open>node_at\<close> reads the object at such a place and \<open>modify_at\<close> changes it there.
\<close>

fun node_at :: "node \<Rightarrow> string list \<Rightarrow> node option" where
  "node_at n [] = Some n"
| "node_at n (i # rest) = (case getChild n i of None \<Rightarrow> None | Some c \<Rightarrow> node_at c rest)"

fun update_first :: "('a \<Rightarrow> bool) \<Rightarrow> ('a \<Rightarrow> 'a) \<Rightarrow> 'a list \<Rightarrow> 'a list" where
  "update_first P f [] = []"
| "update_first P f (x # xs) = (if P x then f x # xs else x # update_first P f xs)"

primrec modify_at :: "string list \<Rightarrow> (node \<Rightarrow> node) \<Rightarrow> node \<Rightarrow> node" where
  "modify_at [] = (\<lambda>f n. f n)"
| "modify_at (i # rest) =
     (\<lambda>f n. TreeNode (node_id n) (payload n)
        (update_first (\<lambda>c. node_id c = i) (modify_at rest f) (children n)))"

subsection \<open>The tree, its persisted form, save\<close>

text \<open>
  The compact persisted form, \<^verbatim>\<open>#buildJsonIndexTree\<close>, lines 443-459: an identifier and
  a child list per node. \<^verbatim>\<open>#buildTreeFromJson\<close> also reads a \<^verbatim>\<open>name\<close>, which the
  compact form does not have.
\<close>

datatype json = JNode (jid: string) (jname: "string option") (jchildren: "json list")

record ctree =
  root :: node
  layers :: "layer list"
  fresh_id :: "layer list \<Rightarrow> string \<Rightarrow> string"
  index :: "json option"

fun buildJsonIndexTree :: "node \<Rightarrow> json" where
  "buildJsonIndexTree (TreeNode i p cs) =
     JNode i None
       (map (\<lambda>child. if hasChildren child then buildJsonIndexTree child
                      else JNode (node_id child) None []) cs)"

definition save :: "ctree \<Rightarrow> ctree" where
  "save st = st\<lparr>index := Some (buildJsonIndexTree (root st))\<rparr>"

subsection \<open>Paths\<close>

text \<open>
  \<^verbatim>\<open>path.split('/').filter(Boolean)\<close> and
  \<^verbatim>\<open>path.split('/').slice(0, -1).join('/')\<close>.
\<close>

definition path_names :: "string \<Rightarrow> string list" where
  "path_names path = filter (\<lambda>s. s \<noteq> []) (split_on CHR ''/'' path)"

fun join_slash :: "string list \<Rightarrow> string" where
  "join_slash [] = []"
| "join_slash [x] = x"
| "join_slash (x # y # rest) = x @ ''/'' @ join_slash (y # rest)"

definition parent_path :: "string \<Rightarrow> string" where
  "parent_path path = join_slash (butlast (split_on CHR ''/'' path))"

subsection \<open>getNode, lines 320-344\<close>

text \<open>The result is the place of the node found; \<open>None\<close> is the result \<^verbatim>\<open>false\<close>.\<close>

fun getNode_loop :: "layer list \<Rightarrow> node \<Rightarrow> string list \<Rightarrow> string list option" where
  "getNode_loop ls currentNode [] = Some []"
| "getNode_loop ls currentNode (layerName # rest) =
     (case getLayerByName ls layerName of
        None \<Rightarrow> None
      | Some layer \<Rightarrow>
          (case getChild currentNode (layer_id layer) of
             None \<Rightarrow> None
           | Some child \<Rightarrow> map_option ((#) (layer_id layer)) (getNode_loop ls child rest)))"

definition getNode :: "ctree \<Rightarrow> string \<Rightarrow> string list option" where
  "getNode st path =
     (if path = ''/'' \<or> path = [] then Some []
      else getNode_loop (layers st) (root st) (path_names path))"

subsection \<open>insert, lines 126-171\<close>

datatype jsbool = JFalse | JTrue | JUndefined

fun truthy :: "jsbool \<Rightarrow> bool" where
  "truthy JTrue = True"
| "truthy JFalse = False"
| "truthy JUndefined = False"

text \<open>
  The loop over the layer names, on the node object \<^verbatim>\<open>currentNode\<close>. The result says
  how the loop ended (thrown, \<^verbatim>\<open>return false\<close>, or run to its end) and gives the registry
  and the node as the loop left them. The step after the loop is done on the last
  \<^verbatim>\<open>currentNode\<close>: when a node was passed and a child with its identifier is already
  there, that child is added again.
\<close>

fun insert_loop :: "(layer list \<Rightarrow> string \<Rightarrow> string) \<Rightarrow> bool \<Rightarrow> node option \<Rightarrow> layer list \<Rightarrow> node
                      \<Rightarrow> string list \<Rightarrow> (error + bool) \<times> layer list \<times> node" where
  "insert_loop fresh autoCreateLayers nodeArg ls currentNode [] =
     (Inr True, ls,
      (case nodeArg of
         None \<Rightarrow> currentNode
       | Some n \<Rightarrow>
           (case getChild currentNode (node_id n) of
              None \<Rightarrow> currentNode
            | Some child \<Rightarrow> addChild currentNode child)))"
| "insert_loop fresh autoCreateLayers nodeArg ls currentNode (layerName # rest) =
     (case (case getLayerByName ls layerName of
              Some l \<Rightarrow> Some (l, ls)
            | None \<Rightarrow> if autoCreateLayers then Some (createLayer fresh ls layerName) else None) of
        None \<Rightarrow> (Inr False, ls, currentNode)
      | Some (layer, ls1) \<Rightarrow>
          (case getChild currentNode (layer_id layer) of
             Some child \<Rightarrow>
               (case insert_loop fresh autoCreateLayers nodeArg ls1 child rest of
                  (r, ls2, child1) \<Rightarrow>
                    (r, ls2, modify_at [layer_id layer] (\<lambda>c. child1) currentNode))
           | None \<Rightarrow>
               (case new_TreeNode (layer_id layer) (getLayerByID ls1 (layer_id layer)) of
                  Inl e \<Rightarrow> (Inl e, ls1, currentNode)
                | Inr child \<Rightarrow>
                    (case insert_loop fresh autoCreateLayers nodeArg ls1 child rest of
                       (r, ls2, child1) \<Rightarrow> (r, ls2, addChild currentNode child1)))))"

definition insert_tree :: "ctree \<Rightarrow> string \<Rightarrow> node option \<Rightarrow> bool \<Rightarrow> jsbool outcome \<times> ctree" where
  "insert_tree st path nodeArg autoCreateLayers =
     (if path = ''/'' \<and> nodeArg = None then (Return JFalse, st)
      else
        (case insert_loop (fresh_id st) autoCreateLayers nodeArg (layers st) (root st)
                (path_names path) of
           (Inl e, ls, r) \<Rightarrow> (Throw e, st\<lparr>root := r, layers := ls\<rparr>)
         | (Inr False, ls, r) \<Rightarrow> (Return JFalse, st\<lparr>root := r, layers := ls\<rparr>)
         | (Inr True, ls, r) \<Rightarrow> (Return JUndefined, save (st\<lparr>root := r, layers := ls\<rparr>))))"

subsection \<open>The loop over \<^verbatim>\<open>node.children.values()\<close>\<close>

text \<open>
  \<^verbatim>\<open>for (const [key, value] of node.children.values()) { parentNode.addChild(value); }\<close>
  in \<^verbatim>\<open>move\<close> and \<^verbatim>\<open>remove\<close>. \<^verbatim>\<open>values()\<close> yields the child nodes themselves, and
  the pattern \<^verbatim>\<open>[key, value]\<close> asks each of them for an iterator. \<^verbatim>\<open>TreeNode\<close> defines
  none, so the binding raises \<^verbatim>\<open>TypeError\<close> at the first child, before the loop body.
\<close>

definition destructure_pair :: "node \<Rightarrow> error + (node \<times> node)" where
  "destructure_pair child = Inl TypeError"

fun children_to_parent :: "node list \<Rightarrow> node \<Rightarrow> error + node" where
  "children_to_parent [] parentNode = Inr parentNode"
| "children_to_parent (child # rest) parentNode =
     (case destructure_pair child of
        Inl e \<Rightarrow> Inl e
      | Inr (key, val) \<Rightarrow> children_to_parent rest (addChild parentNode val))"

subsection \<open>move, lines 173-210, and moveRecursive, lines 212-235\<close>

text \<open>
  Both methods look the source node and its parent up first, call \<^verbatim>\<open>insert\<close> on the
  target path, and return false when \<^verbatim>\<open>!this.insert(...)\<close> holds. The statements after
  that test are \<^verbatim>\<open>parentNode.removeChild(node.id)\<close>, in \<^verbatim>\<open>move\<close> the loop over the
  node's children, and \<^verbatim>\<open>save\<close>. In \<^verbatim>\<open>moveRecursive\<close> a source path that does not
  resolve makes \<^verbatim>\<open>layer\<close> undefined, and \<^verbatim>\<open>layer.name\<close> raises \<^verbatim>\<open>TypeError\<close>;
  \<^verbatim>\<open>pathTo.includes(layer.name)\<close> is the test that the name is a substring of the path.
\<close>

definition moveRecursive :: "ctree \<Rightarrow> string \<Rightarrow> string \<Rightarrow> jsbool outcome \<times> ctree" where
  "moveRecursive st pathFrom pathTo =
     (case getNode st pathFrom of
        None \<Rightarrow> (Throw TypeError, st)
      | Some loc \<Rightarrow>
          (case node_at (root st) loc of
             None \<Rightarrow> (Throw TypeError, st)
           | Some n \<Rightarrow>
               (if sublist (layer_name (payload n)) pathTo then (Throw Error, st)
                else
                  (case insert_tree st pathTo (Some n) True of
                     (Throw e, st1) \<Rightarrow> (Throw e, st1)
                   | (Return r, st1) \<Rightarrow>
                       (if \<not> truthy r then (Return JFalse, st1)
                        else
                          (case getNode st (parent_path pathFrom) of
                             None \<Rightarrow> (Throw TypeError, st1)
                           | Some ploc \<Rightarrow>
                               (Return JUndefined,
                                save (st1\<lparr>root := modify_at ploc (\<lambda>p. removeChild p (node_id n))
                                                     (root st1)\<rparr>))))))))"

definition move :: "ctree \<Rightarrow> string \<Rightarrow> string \<Rightarrow> bool \<Rightarrow> jsbool outcome \<times> ctree" where
  "move st pathFrom pathTo recursive =
     (if recursive then moveRecursive st pathFrom pathTo
      else
        (case getNode st pathFrom of
           None \<Rightarrow> (Return JFalse, st)
         | Some loc \<Rightarrow>
             (case getNode st (parent_path pathFrom) of
                None \<Rightarrow> (Return JFalse, st)
              | Some ploc \<Rightarrow>
                  (case node_at (root st) loc of
                     None \<Rightarrow> (Throw TypeError, st)
                   | Some n \<Rightarrow>
                       (case new_TreeNode (layer_id (payload n)) (Some (payload n)) of
                          Inl e \<Rightarrow> (Throw e, st)
                        | Inr targetNode \<Rightarrow>
                            (case insert_tree st pathTo (Some targetNode) True of
                               (Throw e, st1) \<Rightarrow> (Throw e, st1)
                             | (Return r, st1) \<Rightarrow>
                                 (if \<not> truthy r then (Return JFalse, st1)
                                  else
                                    (let st2 = st1\<lparr>root := modify_at ploc
                                                  (\<lambda>p. removeChild p (node_id n)) (root st1)\<rparr>
                                     in case (if hasChildren n
                                              then map_sum id (\<lambda>p. st2\<lparr>root := modify_at ploc (\<lambda>q. p) (root st2)\<rparr>)
                                                     (case node_at (root st2) ploc of
                                                        None \<Rightarrow> Inl TypeError
                                                      | Some p \<Rightarrow> children_to_parent (children n) p)
                                              else Inr st2) of
                                          Inl e \<Rightarrow> (Throw e, st2)
                                        | Inr st3 \<Rightarrow> (Return JUndefined, save st3)))))))))"

subsection \<open>remove, lines 249-274\<close>

text \<open>
  The loop over the children comes before \<^verbatim>\<open>parentNode.removeChild(node.id)\<close>: when it
  throws, nothing has been changed yet.
\<close>

definition remove_tree :: "ctree \<Rightarrow> string \<Rightarrow> bool \<Rightarrow> jsbool outcome \<times> ctree" where
  "remove_tree st path recursive =
     (case getNode st path of
        None \<Rightarrow> (Return JFalse, st)
      | Some loc \<Rightarrow>
          (case getNode st (parent_path path) of
             None \<Rightarrow> (Throw Error, st)
           | Some ploc \<Rightarrow>
               (case (node_at (root st) loc, node_at (root st) ploc) of
                  (Some n, Some parentNode) \<Rightarrow>
                    (case (if \<not> recursive \<and> hasChildren n
                           then children_to_parent (children n) parentNode
                           else Inr parentNode) of
                       Inl e \<Rightarrow> (Throw e, st)
                     | Inr parentNode1 \<Rightarrow>
                         (Return JTrue,
                          save (st\<lparr>root := modify_at ploc
                                     (\<lambda>p. removeChild parentNode1 (node_id n)) (root st)\<rparr>)))
                | _ \<Rightarrow> (Throw TypeError, st))))"

subsection \<open>insertNode, lines 346-368\<close>

text \<open>
  \<^verbatim>\<open>insertNode(path, node)\<close> attaches the node object it is given under the node at
  \<^verbatim>\<open>path\<close>, unless a child with that identifier is already there, and saves. The guard
  \<^verbatim>\<open>!node || !node instanceof TreeNode\<close> is \<^verbatim>\<open>!node\<close>, since
  \<^verbatim>\<open>!node instanceof TreeNode\<close> is \<^verbatim>\<open>(!node) instanceof TreeNode\<close>, which is false. Nothing
  is asked of the registry about the node or its descendants.

  The node is given here as a tree value of its own: a node object made by the caller. When
  the caller passes a node object that is already part of the tree, the JavaScript tree
  shares that object or becomes cyclic (\<^verbatim>\<open>insertNode('/work/reports', getNode('/work'))\<close>
  puts work below itself), and \<^verbatim>\<open>#buildJsonIndexTree\<close> on a cyclic tree does not return;
  a value of the type \<open>node\<close> is a finite tree without sharing and does not represent
  such states.
\<close>

definition insertNode :: "ctree \<Rightarrow> string \<Rightarrow> node option \<Rightarrow> jsbool outcome \<times> ctree" where
  "insertNode st path nodeArg =
     (case getNode st path of
        None \<Rightarrow> (Return JFalse, st)
      | Some loc \<Rightarrow>
          (case nodeArg of
             None \<Rightarrow> (Return JFalse, st)
           | Some n \<Rightarrow>
               (Return JTrue,
                save (st\<lparr>root := modify_at loc
                             (\<lambda>targetNode. if \<not> hasChild targetNode (node_id n)
                                           then addChild targetNode n else targetNode)
                             (root st)\<rparr>))))"

subsection \<open>load, lines 289-298, and \<^verbatim>\<open>#buildTreeFromJson\<close>, lines 405-440\<close>

fun buildTree :: "(layer list \<Rightarrow> string \<Rightarrow> string) \<Rightarrow> bool \<Rightarrow> layer list \<Rightarrow> json
                    \<Rightarrow> (error + node) \<times> layer list"
  and buildTree_children :: "(layer list \<Rightarrow> string \<Rightarrow> string) \<Rightarrow> bool \<Rightarrow> layer list \<Rightarrow> node
                    \<Rightarrow> json list \<Rightarrow> (error + node) \<times> layer list" where
  "buildTree fresh autoCreateLayers ls (JNode i nm cs) =
     (let found = (if i = ''/'' \<or> nm = Some ''/'' then Some rootLayer else getLayerByID ls i)
      in if found = None \<and> (nm = None \<or> nm = Some [] \<or> \<not> autoCreateLayers) then (Inl Error, ls)
         else
           (case (case found of Some l \<Rightarrow> (l, ls) | None \<Rightarrow> createLayer fresh ls (the nm)) of
              (layer, ls1) \<Rightarrow>
                (case (if layer_id layer = ''/'' then new_TreeNode ''/'' (Some rootLayer)
                       else new_TreeNode (layer_id layer) (getLayerByID ls1 (layer_id layer))) of
                   Inl e \<Rightarrow> (Inl e, ls1)
                 | Inr n \<Rightarrow> buildTree_children fresh autoCreateLayers ls1 n cs)))"
| "buildTree_children fresh autoCreateLayers ls n [] = (Inr n, ls)"
| "buildTree_children fresh autoCreateLayers ls n (childData # rest) =
     (case buildTree fresh autoCreateLayers ls childData of
        (Inl e, ls1) \<Rightarrow> (Inl e, ls1)
      | (Inr childNode, ls1) \<Rightarrow>
          buildTree_children fresh autoCreateLayers ls1 (addChild n childNode) rest)"

definition buildTreeFromJson :: "(layer list \<Rightarrow> string \<Rightarrow> string) \<Rightarrow> layer list \<Rightarrow> json option
                    \<Rightarrow> (error + node) \<times> layer list" where
  "buildTreeFromJson fresh ls rootNode =
     (case rootNode of
        None \<Rightarrow> (new_TreeNode ''/'' (Some rootLayer), ls)
      | Some j \<Rightarrow> buildTree fresh True ls j)"

definition load :: "ctree \<Rightarrow> json option \<Rightarrow> bool outcome \<times> ctree" where
  "load st js =
     (case js of
        None \<Rightarrow> (Return False, st)
      | Some j \<Rightarrow>
          (case buildTreeFromJson (fresh_id st) (layers st) (Some j) of
             (Inl e, ls) \<Rightarrow> (Throw e, st\<lparr>layers := ls\<rparr>)
           | (Inr n, ls) \<Rightarrow> (Return True, st\<lparr>root := n, layers := ls\<rparr>)))"

subsection \<open>Concrete trees\<close>

definition fresh_tree :: ctree where
  "fresh_tree = \<lparr>root = TreeNode ''/'' rootLayer [], layers = [],
                 fresh_id = (\<lambda>ls name. ''id-'' @ name), index = None\<rparr>"

definition reports_tree :: ctree where
  "reports_tree = snd (insert_tree fresh_tree ''/work/reports'' None True)"

definition moved_tree :: ctree where
  "moved_tree = snd (move reports_tree ''/work/reports'' ''/archive/reports'' False)"



subsection \<open>Hierarchies\<close>



text \<open>
  The invariant of the tree's nodes with respect to the registry: an identifier is not
  empty (the constructor refuses it) and is either the root's or known to the registry,
  and the identifiers of a node's children are distinct (they are the keys of a
  \<^verbatim>\<open>Map\<close>).
\<close>

fun tree_ok :: "layer list \<Rightarrow> node \<Rightarrow> bool" where
  "tree_ok ls (TreeNode i p cs) =
     (i \<noteq> [] \<and> (i = ''/'' \<or> getLayerByID ls i \<noteq> None) \<and> distinct (map node_id cs)
      \<and> (\<forall>c\<in>set cs. tree_ok ls c))"

subsection \<open>Registries\<close>

text \<open>
  One registry serves another at least as well when every identifier the first resolves
  is resolved by the second: layers were created, or renamed keeping their identifiers.
\<close>

definition registry_le :: "layer list \<Rightarrow> layer list \<Rightarrow> bool" where
  "registry_le ls ls' = (\<forall>i. getLayerByID ls i \<noteq> None \<longrightarrow> getLayerByID ls' i \<noteq> None)"

section \<open>Properties of BitmapManager\<close>

lemma cached_CacheMap: "cache st = CacheMap c \<Longrightarrow> cached st k = c k"
  by (simp add: cached_def)

lemma heap_ok_cached: "heap_ok st \<Longrightarrow> cached st k = Some r \<Longrightarrow> r < next_ref st"
  by (auto simp: heap_ok_def cached_def)

lemma getBitmap_cached:
  "cache st = CacheMap c \<Longrightarrow> c k = Some r \<Longrightarrow>
   getBitmap st k = (Return (Some r), st\<lparr>has_calls := has_calls st @ [k]\<rparr>)"
  by (simp add: getBitmap_def)

lemma getBitmap_load:
  "cache st = CacheMap c \<Longrightarrow> c k = None \<Longrightarrow> db st k = Some b \<Longrightarrow>
   getBitmap st k = (Return (Some (next_ref st)),
      st\<lparr>objs := (objs st)(next_ref st := deserialize b), next_ref := Suc (next_ref st),
         has_calls := has_calls st @ [k]\<rparr>)"
  by (simp add: getBitmap_def loadBitmapFromDb_def new_bitmap_def)

lemma getBitmap_missing:
  "cache st = CacheMap c \<Longrightarrow> c k = None \<Longrightarrow> db st k = None \<Longrightarrow>
   getBitmap st k = (Return None, st\<lparr>has_calls := has_calls st @ [k]\<rparr>)"
  by (simp add: getBitmap_def)

text \<open>What one resolution does to a well-formed manager.\<close>

lemma getBitmap_heap_ok:
  assumes "heap_ok st"
  obtains b st1 where
    "getBitmap st k = (Return b, st1)"
    "heap_ok st1" "cache st1 = cache st" "db st1 = db st"
    "next_ref st \<le> next_ref st1"
    "\<And>r. r < next_ref st \<Longrightarrow> objs st1 r = objs st r"
    "has_calls st1 = has_calls st @ [k]"
    "b = None \<Longrightarrow> resolves st k = None"
    "\<And>r. b = Some r \<Longrightarrow> r < next_ref st1 \<and> resolves st k = Some (objs st1 r)
        \<and> (cached st k = Some r \<or> (cached st k = None \<and> r = next_ref st))"
proof -
  from assms obtain c where c: "cache st = CacheMap c"
    and lt: "\<And>k r. c k = Some r \<Longrightarrow> r < next_ref st"
    by (auto simp: heap_ok_def)
  show thesis
  proof (cases "c k")
    case (Some r)
    show thesis
      by (rule that[of "Some r" "st\<lparr>has_calls := has_calls st @ [k]\<rparr>"])
         (use c Some lt assms in \<open>auto simp: getBitmap_cached heap_ok_def resolves_def cached_def\<close>)
  next
    case None
    show thesis
    proof (cases "db st k")
      case dbNone: None
      show thesis
        by (rule that[of None "st\<lparr>has_calls := has_calls st @ [k]\<rparr>"])
           (use c None dbNone lt assms in \<open>auto simp: getBitmap_missing heap_ok_def resolves_def cached_def\<close>)
    next
      case (Some bl)
      show thesis
        by (rule that[of "Some (next_ref st)" "st\<lparr>objs := (objs st)(next_ref st := deserialize bl), next_ref := Suc (next_ref st),
         has_calls := has_calls st @ [k]\<rparr>"])
          (use c None Some lt assms in \<open>auto simp: getBitmap_load heap_ok_def resolves_def cached_def less_Suc_eq\<close>)
    qed
  qed
qed

lemma resolves_frame:
  assumes "heap_ok st" "cache st1 = cache st" "db st1 = db st"
    "\<And>r. r < next_ref st \<Longrightarrow> objs st1 r = objs st r"
  shows "resolves st1 k = resolves st k" "cached st1 k = cached st k"
  using assms by (auto simp: resolves_def cached_def heap_ok_def split: option.splits cache.splits)

lemma heap_ok_andInPlace [simp]: "heap_ok (andInPlace p b st) = heap_ok st"
  by (simp add: heap_ok_def andInPlace_def)

lemma andInPlace_fields [simp]:
  "cache (andInPlace p b st) = cache st" "db (andInPlace p b st) = db st"
  "next_ref (andInPlace p b st) = next_ref st" "has_calls (andInPlace p b st) = has_calls st"
  "objs (andInPlace p b st) r = (if r = p then objs st p \<inter> objs st b else objs st r)"
  by (simp_all add: andInPlace_def)

lemma cached_andInPlace [simp]: "cached (andInPlace p b st) x = cached st x"
  by (simp add: cached_def)

lemma resolves_andInPlace:
  "resolves (andInPlace p b st) x =
     (if cached st x = Some p then Some (objs st p \<inter> objs st b) else resolves st x)"
  by (auto simp: resolves_def split: option.splits)

lemma resolves_andInPlace_empty:
  "resolves st k = None \<or> resolves st k = Some {} \<Longrightarrow>
   resolves (andInPlace p b st) k = None \<or> resolves (andInPlace p b st) k = Some {}"
  by (auto simp: resolves_andInPlace resolves_def split: option.splits)

lemma return_new_bm:
  "return_new (st::bm) = (Return (next_ref st),
      st\<lparr>objs := (objs st)(next_ref st := {}), next_ref := Suc (next_ref st)\<rparr>)"
  by (simp add: return_new_def new_bitmap_def)

lemma result_set_return_new [simp]: "result_set (return_new h) = Some {}"
  by (simp add: return_new_def new_bitmap_def)

lemma AND_loop_short:
  assumes "heap_ok st"
    and "resolves st k = None \<or> resolves st k = Some {}"
  shows "AND_loop st partial (pre @ k # post) = AND_loop st partial (pre @ [k])
       \<and> result_set (AND_loop st partial (pre @ [k])) = Some {}
       \<and> prefix (has_calls st) (has_calls (snd (AND_loop st partial (pre @ [k]))))
       \<and> prefix (has_calls (snd (AND_loop st partial (pre @ [k])))) (has_calls st @ pre @ [k])"
  using assms
proof (induction pre arbitrary: st partial)
  case Nil
  from Nil(1) obtain b st1 where g: "getBitmap st k = (Return b, st1)"
    and h: "has_calls st1 = has_calls st @ [k]"
    and s: "\<And>r. b = Some r \<Longrightarrow> r < next_ref st1 \<and> resolves st k = Some (objs st1 r)
        \<and> (cached st k = Some r \<or> (cached st k = None \<and> r = next_ref st))"
    by (rule getBitmap_heap_ok[of st k]) blast
  show ?case
  proof (cases b)
    case None
    then show ?thesis using g h by (simp add: return_new_bm)
  next
    case (Some r)
    with s Nil(2) have "objs st1 r = {}" by auto
    then show ?thesis using g h Some by (simp add: return_new_bm)
  qed
next
  case (Cons a pre)
  from Cons.prems(1) obtain b st1 where g: "getBitmap st a = (Return b, st1)"
    and ok1: "heap_ok st1" and c1: "cache st1 = cache st" and d1: "db st1 = db st"
    and fr: "\<And>r. r < next_ref st \<Longrightarrow> objs st1 r = objs st r"
    and h: "has_calls st1 = has_calls st @ [a]"
    by (rule getBitmap_heap_ok[of st a]) blast
  have res1: "\<And>x. resolves st1 x = resolves st x"
    using resolves_frame(1)[OF Cons.prems(1) c1 d1 fr] by simp
  show ?case
  proof (cases b)
    case None
    then show ?thesis using g h by (simp add: return_new_bm)
  next
    case b: (Some r)
    show ?thesis
    proof (cases "objs st1 r = {}")
      case True
      then show ?thesis using g h b by (simp add: return_new_bm)
    next
      case False
      show ?thesis
      proof (cases partial)
        case None
        have "AND_loop st1 (Some r) (pre @ k # post) = AND_loop st1 (Some r) (pre @ [k])
         \<and> result_set (AND_loop st1 (Some r) (pre @ [k])) = Some {}
         \<and> prefix (has_calls st1) (has_calls (snd (AND_loop st1 (Some r) (pre @ [k]))))
         \<and> prefix (has_calls (snd (AND_loop st1 (Some r) (pre @ [k])))) (has_calls st1 @ pre @ [k])"
          by (rule Cons.IH[OF ok1]) (use Cons.prems res1 in auto)
        then show ?thesis using g b False None h
          by (auto dest: append_prefixD)
      next
        case (Some p)
        let ?st2 = "andInPlace p r st1"
        have "AND_loop ?st2 (Some p) (pre @ k # post) = AND_loop ?st2 (Some p) (pre @ [k])
         \<and> result_set (AND_loop ?st2 (Some p) (pre @ [k])) = Some {}
         \<and> prefix (has_calls ?st2) (has_calls (snd (AND_loop ?st2 (Some p) (pre @ [k]))))
         \<and> prefix (has_calls (snd (AND_loop ?st2 (Some p) (pre @ [k])))) (has_calls ?st2 @ pre @ [k])"
        proof (rule Cons.IH)
          show "heap_ok ?st2" using ok1 by simp
          show "resolves ?st2 k = None \<or> resolves ?st2 k = Some {}"
            using Cons.prems(2) res1[of k] by (intro resolves_andInPlace_empty) simp
        qed
        then show ?thesis using g b False Some h
          by (auto dest: append_prefixD)
      qed
    qed
  qed
qed

lemma inter_step:
  assumes "\<And>x. x \<in> K \<Longrightarrow> (P \<inter> B) \<inter> f x = (P \<inter> B) \<inter> g x"
  shows "(P \<inter> B) \<inter> (\<Inter>x\<in>K. f x) = P \<inter> (B \<inter> (\<Inter>x\<in>K. g x))"
  using assms by blast

lemma AND_loop_inter:
  assumes "heap_ok st" and "p < next_ref st"
    and "\<forall>x\<in>set ks. resolves st x \<noteq> None"
  shows "result_set (AND_loop st (Some p) ks)
           = Some (objs st p \<inter> (\<Inter>x\<in>set ks. the (resolves st x)))"
  using assms
proof (induction ks arbitrary: st)
  case Nil
  then show ?case by simp
next
  case (Cons a ks)
  from Cons.prems(1) obtain b st1 where g: "getBitmap st a = (Return b, st1)"
    and ok1: "heap_ok st1" and c1: "cache st1 = cache st" and d1: "db st1 = db st"
    and le: "next_ref st \<le> next_ref st1"
    and fr: "\<And>r. r < next_ref st \<Longrightarrow> objs st1 r = objs st r"
    and n: "b = None \<Longrightarrow> resolves st a = None"
    and s: "\<And>r. b = Some r \<Longrightarrow> r < next_ref st1 \<and> resolves st a = Some (objs st1 r)
        \<and> (cached st a = Some r \<or> (cached st a = None \<and> r = next_ref st))"
    by (rule getBitmap_heap_ok[of st a]) blast
  have res1: "\<And>x. resolves st1 x = resolves st x"
    using resolves_frame(1)[OF Cons.prems(1) c1 d1 fr] by simp
  have cch1: "\<And>x. cached st1 x = cached st x"
    using resolves_frame(2)[OF Cons.prems(1) c1 d1 fr] by simp
  from Cons.prems(3) n obtain r where b: "b = Some r" by (cases b) auto
  have B: "the (resolves st a) = objs st1 r" using s[OF b] by simp
  have P: "objs st1 p = objs st p" using fr Cons.prems(2) by simp
  show ?case
  proof (cases "objs st1 r = {}")
    case True
    then show ?thesis using g b B by simp
  next
    case False
    let ?st2 = "andInPlace p r st1"
    have IH: "result_set (AND_loop ?st2 (Some p) ks)
           = Some (objs ?st2 p \<inter> (\<Inter>x\<in>set ks. the (resolves ?st2 x)))"
    proof (rule Cons.IH)
      show "heap_ok ?st2" using ok1 by simp
      show "p < next_ref ?st2" using Cons.prems(2) le by simp
      show "\<forall>x\<in>set ks. resolves ?st2 x \<noteq> None"
        using Cons.prems(3) res1 by (simp add: resolves_andInPlace)
    qed
    have eq: "(objs st p \<inter> objs st1 r) \<inter> the (resolves ?st2 x)
            = (objs st p \<inter> objs st1 r) \<inter> the (resolves st x)" for x
    proof (cases "cached st1 x = Some p")
      case True
      then have "resolves st1 x = Some (objs st1 p)" by (simp add: resolves_def)
      then have "the (resolves st x) = objs st p" using res1 P by simp
      then show ?thesis using True P by (auto simp: resolves_andInPlace)
    next
      case False
      then show ?thesis using res1 by (simp add: resolves_andInPlace)
    qed
    have "(objs st p \<inter> objs st1 r) \<inter> (\<Inter>x\<in>set ks. the (resolves ?st2 x))
        = objs st p \<inter> (objs st1 r \<inter> (\<Inter>x\<in>set ks. the (resolves st x)))"
      by (rule inter_step) (rule eq)
    then show ?thesis using g b False IH P B by simp
  qed
qed


lemma AND_short:
  assumes "heap_ok st"
    and "resolves st k = None \<or> resolves st k = Some {}"
  shows "AND st (pre @ k # post) = AND st (pre @ [k])
       \<and> result_set (AND st (pre @ k # post)) = Some {}
       \<and> prefix (has_calls st) (has_calls (snd (AND st (pre @ k # post))))
       \<and> prefix (has_calls (snd (AND st (pre @ k # post)))) (has_calls st @ pre @ [k])"
  using AND_loop_short[OF assms, of None pre post] by (simp add: AND_def)

lemma AND_inter:
  assumes "heap_ok st" and "keys \<noteq> []"
    and "\<forall>x\<in>set keys. resolves st x \<noteq> None"
  shows "result_set (AND st keys) = Some (\<Inter>x\<in>set keys. the (resolves st x))"
proof -
  from assms(2) obtain k ks where keys: "keys = k # ks" by (cases keys) auto
  from assms(1) obtain b st1 where g: "getBitmap st k = (Return b, st1)"
    and ok1: "heap_ok st1" and c1: "cache st1 = cache st" and d1: "db st1 = db st"
    and fr: "\<And>r. r < next_ref st \<Longrightarrow> objs st1 r = objs st r"
    and n: "b = None \<Longrightarrow> resolves st k = None"
    and s: "\<And>r. b = Some r \<Longrightarrow> r < next_ref st1 \<and> resolves st k = Some (objs st1 r)
        \<and> (cached st k = Some r \<or> (cached st k = None \<and> r = next_ref st))"
    by (rule getBitmap_heap_ok[of st k]) blast
  have res1: "\<And>x. resolves st1 x = resolves st x"
    using resolves_frame(1)[OF assms(1) c1 d1 fr] by simp
  from assms(3) keys n obtain r where b: "b = Some r" by (cases b) auto
  have B: "the (resolves st k) = objs st1 r" using s[OF b] by simp
  show ?thesis
  proof (cases "objs st1 r = {}")
    case True
    then show ?thesis using g b B keys by (simp add: AND_def)
  next
    case False
    have "result_set (AND_loop st1 (Some r) ks)
           = Some (objs st1 r \<inter> (\<Inter>x\<in>set ks. the (resolves st1 x)))"
      by (rule AND_loop_inter[OF ok1]) (use s[OF b] assms(3) keys res1 in auto)
    then show ?thesis using g b B False keys res1 by (simp add: AND_def)
  qed
qed



lemma andInPlace_objs:
  "objs (andInPlace p b h) r = (if r = p then objs h p \<inter> objs h b else objs h r)"
  by (simp add: andInPlace_def)


lemma AND_static_loop_short:
  assumes "k = None \<or> (\<exists>b. k = Some b \<and> objs h b = {})"
  shows "AND_static_loop h partial (pre @ k # post) = AND_static_loop h partial (pre @ [k])
       \<and> result_set (AND_static_loop h partial (pre @ [k])) = Some {}"
  using assms
proof (induction pre arbitrary: h partial)
  case Nil
  then show ?case by (auto split: option.splits)
next
  case (Cons a pre)
  show ?case
  proof (cases a)
    case None
    then show ?thesis by simp
  next
    case a: (Some r)
    show ?thesis
    proof (cases "objs h r = {}")
      case True
      then show ?thesis using a by simp
    next
      case False
      show ?thesis
      proof (cases partial)
        case None
        then show ?thesis using a False Cons.IH[OF Cons.prems, of "Some r"] by simp
      next
        case (Some p)
        have "k = None \<or> (\<exists>b. k = Some b \<and> objs (andInPlace p r h) b = {})"
          using Cons.prems by (auto simp: andInPlace_objs)
        from Cons.IH[OF this, of "Some p"] show ?thesis using a False Some by simp
      qed
    qed
  qed
qed

lemma AND_static_loop_inter:
  assumes "\<forall>x\<in>set bs. x \<noteq> None"
  shows "result_set (AND_static_loop h (Some p) bs)
           = Some (objs h p \<inter> (\<Inter>x\<in>set bs. objs h (the x)))"
  using assms
proof (induction bs arbitrary: h)
  case Nil
  then show ?case by simp
next
  case (Cons a bs)
  then obtain r where a: "a = Some r" by auto
  show ?case
  proof (cases "objs h r = {}")
    case True
    then show ?thesis using a by simp
  next
    case False
    let ?h2 = "andInPlace p r h"
    have IH: "result_set (AND_static_loop ?h2 (Some p) bs)
           = Some (objs ?h2 p \<inter> (\<Inter>x\<in>set bs. objs ?h2 (the x)))"
      by (rule Cons.IH) (use Cons.prems in simp)
    have "(objs h p \<inter> objs h r) \<inter> (\<Inter>x\<in>set bs. objs ?h2 (the x))
        = objs h p \<inter> (objs h r \<inter> (\<Inter>x\<in>set bs. objs h (the x)))"
      by (rule inter_step) (auto simp: andInPlace_objs)
    then show ?thesis using a False IH by (simp add: andInPlace_objs)
  qed
qed


lemma AND_static_short:
  assumes "k = None \<or> (\<exists>b. k = Some b \<and> objs h b = {})"
  shows "AND_static h (pre @ k # post) = AND_static h (pre @ [k])
       \<and> result_set (AND_static h (pre @ k # post)) = Some {}"
  using AND_static_loop_short[OF assms, of None pre post] by (simp add: AND_static_def)

lemma AND_static_inter:
  assumes "bs \<noteq> []" and "\<forall>x\<in>set bs. x \<noteq> None"
  shows "result_set (AND_static h bs) = Some (\<Inter>x\<in>set bs. objs h (the x))"
proof -
  from assms obtain r rest where bs: "bs = Some r # rest" by (cases bs) auto
  show ?thesis
  proof (cases "objs h r = {}")
    case True
    then show ?thesis using bs by (simp add: AND_static_def)
  next
    case False
    then show ?thesis using bs assms(2) AND_static_loop_inter[of rest h r]
      by (simp add: AND_static_def)
  qed
qed




subsection \<open>C7: getBitmap\<close>

text \<open>
  What \<^verbatim>\<open>getBitmap\<close> does, for a manager whose cache is a map and every key k: it
  returns the cached object when one is cached under k, allocating nothing; otherwise,
  when k is in the backing store, it deserializes the blob into a newly allocated object
  and returns that object; otherwise it returns null and allocates nothing. In every case
  the cache and the backing store are left as they were.
\<close>

lemma getBitmap_cases:
  assumes "cache st = CacheMap c"
  shows "(cached st k = Some r \<longrightarrow> fst (getBitmap st k) = Return (Some r)
            \<and> objs (snd (getBitmap st k)) = objs st
            \<and> next_ref (snd (getBitmap st k)) = next_ref st)
       \<and> (cached st k = None \<and> db st k = Some b \<longrightarrow>
            fst (getBitmap st k) = Return (Some (next_ref st))
            \<and> objs (snd (getBitmap st k)) = (objs st)(next_ref st := deserialize b)
            \<and> next_ref (snd (getBitmap st k)) = Suc (next_ref st))
       \<and> (cached st k = None \<and> db st k = None \<longrightarrow>
            fst (getBitmap st k) = Return None
            \<and> objs (snd (getBitmap st k)) = objs st
            \<and> next_ref (snd (getBitmap st k)) = next_ref st)
       \<and> cache (snd (getBitmap st k)) = cache st
       \<and> db (snd (getBitmap st k)) = db st"
proof (cases "c k")
  case None
  show ?thesis
  proof (cases "db st k")
    case dbNone: None
    show ?thesis using assms None dbNone
      by (simp add: getBitmap_missing[OF assms None dbNone] cached_def)
  next
    case (Some bl)
    show ?thesis using assms None Some
      by (simp add: getBitmap_load[OF assms None Some] cached_def)
  qed
next
  case (Some r')
  show ?thesis using assms Some
    by (simp add: getBitmap_cached[OF assms Some] cached_def)
qed

text \<open>
  C7 at a concrete input. The key a is in the backing store and not in the cache.
  \<^verbatim>\<open>getBitmap('a')\<close> loads the blob into a new object and returns it, and afterwards the
  cache is still the empty map: the loaded set is not put into the cache, where C7 has
  the load populate it. A second \<^verbatim>\<open>getBitmap('a')\<close> therefore loads the blob again,
  into another object.
\<close>

theorem getBitmap_does_not_populate_cache:
  "cached one_key_store (Str ''a'') = None
   \<and> db one_key_store (Str ''a'') = Some (serialize {1})
   \<and> fst (getBitmap one_key_store (Str ''a'')) = Return (Some 0)
   \<and> objs (snd (getBitmap one_key_store (Str ''a''))) 0 = {1}
   \<and> cached (snd (getBitmap one_key_store (Str ''a''))) (Str ''a'') = None
   \<and> cache (snd (getBitmap one_key_store (Str ''a''))) = CacheMap Map.empty
   \<and> fst (getBitmap (snd (getBitmap one_key_store (Str ''a''))) (Str ''a'')) = Return (Some 1)"
  by (simp add: getBitmap_def loadBitmapFromDb_def new_bitmap_def one_key_store_def empty_store_def
      cached_def serialize_def)

subsection \<open>C3: AND short-circuits, and otherwise intersects\<close>

text \<open>
  C3. \<^verbatim>\<open>AND([])\<close> returns an empty set. For a manager whose cache is a map: if a key k
  of the list resolves to nothing or to an empty set, \<^verbatim>\<open>AND\<close> returns an empty set, the
  call is the same (result and final state) as the call on the list cut after k, and the
  keys asked of the cache are a prefix of the list up to k, so no key after k is resolved.
  If all keys resolve to sets that are not empty, the result is their intersection. The
  static variant does the same on a list of set objects, where a null entry stands for a
  missing set.
\<close>

theorem AND_short_circuit_and_intersection:
  "result_set (AND st []) = Some {}
   \<and> result_set (AND_static h []) = Some {}
   \<and> (heap_ok st \<and> (resolves st k = None \<or> resolves st k = Some {}) \<longrightarrow>
         result_set (AND st (pre @ k # post)) = Some {}
         \<and> AND st (pre @ k # post) = AND st (pre @ [k])
         \<and> prefix (has_calls (snd (AND st (pre @ k # post)))) (has_calls st @ pre @ [k]))
   \<and> (heap_ok st \<and> keys \<noteq> [] \<and> (\<forall>x\<in>set keys. \<exists>v. resolves st x = Some v \<and> v \<noteq> {}) \<longrightarrow>
         result_set (AND st keys) = Some (\<Inter>x\<in>set keys. the (resolves st x)))
   \<and> (b = None \<or> (\<exists>r. b = Some r \<and> objs h r = {}) \<longrightarrow>
         result_set (AND_static h (bpre @ b # bpost)) = Some {}
         \<and> AND_static h (bpre @ b # bpost) = AND_static h (bpre @ [b]))
   \<and> (bs \<noteq> [] \<and> (\<forall>x\<in>set bs. \<exists>r. x = Some r \<and> objs h r \<noteq> {}) \<longrightarrow>
         result_set (AND_static h bs) = Some (\<Inter>x\<in>set bs. objs h (the x)))"
proof (intro conjI impI)
  show "result_set (AND st []) = Some {}" by (simp add: AND_def)
  show "result_set (AND_static h []) = Some {}" by (simp add: AND_static_def)
next
  assume a: "heap_ok st \<and> (resolves st k = None \<or> resolves st k = Some {})"
  then have ok: "heap_ok st" and e: "resolves st k = None \<or> resolves st k = Some {}" by simp_all
  note s = AND_short[OF ok e, of pre post]
  show "result_set (AND st (pre @ k # post)) = Some {}" using s by blast
  show "AND st (pre @ k # post) = AND st (pre @ [k])" using s by blast
  show "prefix (has_calls (snd (AND st (pre @ k # post)))) (has_calls st @ pre @ [k])"
    using s by blast
next
  assume "heap_ok st \<and> keys \<noteq> [] \<and> (\<forall>x\<in>set keys. \<exists>v. resolves st x = Some v \<and> v \<noteq> {})"
  then show "result_set (AND st keys) = Some (\<Inter>x\<in>set keys. the (resolves st x))"
    by (intro AND_inter) auto
next
  assume a: "b = None \<or> (\<exists>r. b = Some r \<and> objs h r = {})"
  note s = AND_static_short[OF a, of bpre bpost]
  show "result_set (AND_static h (bpre @ b # bpost)) = Some {}" using s by blast
  show "AND_static h (bpre @ b # bpost) = AND_static h (bpre @ [b])" using s by blast
next
  assume "bs \<noteq> [] \<and> (\<forall>x\<in>set bs. \<exists>r. x = Some r \<and> objs h r \<noteq> {})"
  then show "result_set (AND_static h bs) = Some (\<Inter>x\<in>set bs. objs h (the x))"
    by (intro AND_static_inter) auto
qed

lemma and_store_ok: "heap_ok and_store"
  by (simp add: heap_ok_def and_store_def)

lemma and_store_resolves:
  "resolves and_store (Str ''a'') = Some {1000, 1001}"
  "resolves and_store (Str ''b'') = Some {1001, 1002}"
  "resolves and_store (Str ''c'') = Some {1001, 1003}"
  "resolves and_store (Str ''e'') = Some {}"
  "resolves and_store (Str ''missing'') = None"
  by (simp_all add: resolves_def cached_def and_store_def)

theorem AND_short_circuit_and_intersection_witness:
  "heap_ok and_store
   \<and> resolves and_store (Str ''missing'') = None
   \<and> result_set (AND and_store [Str ''a'', Str ''missing'', Str ''b'']) = Some {}
   \<and> prefix (has_calls (snd (AND and_store [Str ''a'', Str ''missing'', Str ''b''])))
        [Str ''a'', Str ''missing'']
   \<and> result_set (AND and_store [Str ''a'', Str ''b'', Str ''c'']) = Some {1001}
   \<and> result_set (AND_static and_store [Some 2, None, Some 3]) = Some {}
   \<and> result_set (AND_static and_store [Some 2, Some 3]) = Some {1001}"
proof -
  have hc: "has_calls and_store = []" by (simp add: and_store_def)
  have o: "objs and_store 2 = {1000, 1001}" "objs and_store 3 = {1001, 1002}"
    by (simp_all add: and_store_def)
  show ?thesis
    using AND_short_circuit_and_intersection[of and_store and_store "Str ''missing''"
        "[Str ''a'']" "[Str ''b'']" "[Str ''a'', Str ''b'', Str ''c'']" None "[Some 2]" "[Some 3]"
        "[Some 2, Some 3]"]
    by (simp (no_asm_use) add: and_store_ok and_store_resolves hc o)
       (use and_store_ok and_store_resolves in blast)
qed

subsection \<open>C9: AND mutates the first object in place\<close>






subsection \<open>C4: tick, tickSync and tickMany\<close>

lemma tick_unknown_key:
  assumes "cache st = CacheMap c" and "c x = None" and "db st x = None"
  shows "tick st key x = (Return TFalse, st\<lparr>has_calls := has_calls st @ [x]\<rparr>)"
  using assms by (simp add: tick_def getBitmap_missing)

lemma tickMany_map_unknown_key:
  assumes "cache st = CacheMap c" and "c x = None" and "db st x = None"
  shows "tickMany_map st keys x =
           (Return (replicate (length keys) TFalse),
            st\<lparr>has_calls := has_calls st @ replicate (length keys) x\<rparr>)"
  using assms
proof (induction keys arbitrary: st)
  case Nil
  then show ?case by simp
next
  case (Cons key keys)
  let ?st1 = "st\<lparr>has_calls := has_calls st @ [x]\<rparr>"
  have t: "tick st key x = (Return TFalse, ?st1)"
    by (rule tick_unknown_key[OF Cons.prems])
  have "tickMany_map ?st1 keys x =
           (Return (replicate (length keys) TFalse),
            ?st1\<lparr>has_calls := has_calls ?st1 @ replicate (length keys) x\<rparr>)"
    by (rule Cons.IH) (use Cons.prems in simp_all)
  then show ?case using t by (simp add: replicate_app_Cons_same)
qed

lemma tickMany_ticks_no_listed_key:
  assumes "cache st = CacheMap c" and "c x = None" and "db st x = None" and "keys \<noteq> []"
  shows "tickMany st keys x ac sv =
           (Return (replicate (length keys) TFalse),
            st\<lparr>has_calls := has_calls st @ replicate (length keys) x\<rparr>)"
  using assms by (simp add: tickMany_def tickMany_map_unknown_key)

lemma tickSync_without_autocreate:
  assumes "cache st = CacheMap c" and "c key = None" and "db st key = None"
  shows "tickSync st key oids False sv = (Return TFalse, st\<lparr>has_calls := has_calls st @ [key]\<rparr>)"
  using assms by (simp add: tickSync_def getBitmap_missing)

lemma tickSync_autocreate_persists:
  assumes "cache st = CacheMap c" and "c key = None" and "db st key = None"
  shows "fst (tickSync st key (Arr ns) True True) = Return (TBitmap (next_ref st))
       \<and> db (snd (tickSync st key (Arr ns) True True)) key
            = Some (serialize (set (map (\<lambda>n. n mod 2 ^ 32) ns)))"
  using assms
  by (simp add: tickSync_def getBitmap_missing new_bitmap_def saveBitmapToDb_def)

text \<open>
  C4 at a concrete input. The store holds the empty set under the key a.
  \<^verbatim>\<open>tickMany(['a'], 1000)\<close> calls \<^verbatim>\<open>tick('a', 1000, true, true)\<close>, which looks for a
  bitmap under the key 1000, finds none and returns false: the set at a is not changed,
  nothing is created and nothing is persisted. \<^verbatim>\<open>tickManySync\<close> on the same input
  adds 1000 to the set at a and persists it.
\<close>

theorem tickMany_ticks_nothing:
  "db empty_set_store (Str ''a'') = Some (serialize {})
   \<and> fst (tickMany empty_set_store [Str ''a''] (Num 1000) True True) = Return [TFalse]
   \<and> has_calls (snd (tickMany empty_set_store [Str ''a''] (Num 1000) True True)) = [Num 1000]
   \<and> db (snd (tickMany empty_set_store [Str ''a''] (Num 1000) True True)) (Str ''a'') = Some (serialize {})
   \<and> next_ref (snd (tickMany empty_set_store [Str ''a''] (Num 1000) True True)) = 0
   \<and> fst (tickManySync empty_set_store [Str ''a''] (Num 1000) True True) = Return [TBitmap 0]
   \<and> db (snd (tickManySync empty_set_store [Str ''a''] (Num 1000) True True)) (Str ''a'')
        = Some (serialize {1000})"
  by (simp add: empty_set_store_def empty_store_def tickMany_def tick_def tickManySync_def tickSync_def
      getBitmap_def loadBitmapFromDb_def new_bitmap_def saveBitmapToDb_def serialize_def)

section \<open>Properties of IndexD\<close>

lemma split_on_nonempty: "split_on c s \<noteq> []"
  by (induction s) (auto split: list.splits)

lemma getBitmap_string_cache: "cache m = CacheStr v \<Longrightarrow> getBitmap m key = (Throw TypeError, m)"
  by (simp add: getBitmap_def)

lemma tickMany_string_cache:
  "cache m = CacheStr v \<Longrightarrow> tickMany m keys x ac sv = (Throw TypeError, m)"
  by (cases keys) (simp_all add: tickMany_def tick_def getBitmap_string_cache)

lemma absorb_manager [simp]: "absorb (manager v st) st = st"
  by (simp add: absorb_def manager_def)

lemma insertDocument_cases:
  "insertDocument st doc cs fs =
     (case hash2oid st (arg_sha1 doc) of
        Some (Suc n) \<Rightarrow> (Return RTrue, st)
      | _ \<Rightarrow> (Throw TypeError,
              st\<lparr>documents := (documents st)(doc_id (validateDocument st doc) \<mapsto> validateDocument st doc)\<rparr>))"
proof -
  have s: "sha1 (validateDocument st doc) = arg_sha1 doc" by (simp add: validateDocument_def)
  have t: "\<And>st' v ks x. tickMany (manager v st') ks x True True = (Throw TypeError, manager v st')"
    by (rule tickMany_string_cache[of _ ]) (simp add: manager_def)
  show ?thesis
    by (simp add: insertDocument_def updateDocument_def bmContexts_def bmFeatures_def t s Let_def
        split: option.splits nat.splits)
qed

lemma insertDocument_never_records_hash:
  "hash2oid (snd (insertDocument st doc cs fs)) = hash2oid st"
  by (simp add: insertDocument_cases split: option.splits nat.splits)

lemma insertDocument_never_returns_document:
  "fst (insertDocument st doc cs fs) \<noteq> Return (RDoc d)"
  by (simp add: insertDocument_cases split: option.splits nat.splits)

lemma getDocumentByHash_raw_key:
  "getDocumentByHash st h [] = (case hash2oid st h of Some (Suc n) \<Rightarrow> documents st (Suc n) | _ \<Rightarrow> None)"
  by (simp add: getDocumentByHash_def)

lemma getDocumentByHash_typed_key:
  "t \<noteq> [] \<Longrightarrow> getDocumentByHash st h t =
     (case hash2oid st (t @ ''/'' @ h) of Some (Suc n) \<Rightarrow> documents st (Suc n) | _ \<Rightarrow> None)"
  by (simp add: getDocumentByHash_def)

subsection \<open>C2: the dedup law\<close>

text \<open>
  C2 at a concrete input. Two documents with the identifiers 1000 and 1001 and the same
  sha1 hash H are inserted one after the other into an empty index, with the default
  (empty) context and feature lists. Each call writes its document and then throws,
  because \<^verbatim>\<open>tickMany\<close> rejects an empty key list, so the hash is never recorded:
  afterwards both documents are stored and H resolves to no identifier.
\<close>

theorem insertDocument_twice_stores_two:
  "fst (insertDocument empty_index first_doc [] []) = Throw TypeError
   \<and> fst (insertDocument after_first second_doc [] []) = Throw TypeError
   \<and> documents after_second 1000 = Some \<lparr>doc_id = 1000, sha1 = ''H'', data = ''first''\<rparr>
   \<and> documents after_second 1001 = Some \<lparr>doc_id = 1001, sha1 = ''H'', data = ''second''\<rparr>
   \<and> hash2oid after_second ''H'' = None"
  by (simp add: after_second_def after_first_def insertDocument_cases empty_index_def
      first_doc_def second_doc_def validateDocument_def)

subsection \<open>C10: lookup by hash after insertDocument\<close>

text \<open>
  C10 at a concrete input. A document with the sha1 hash H is inserted with one context
  and one feature. The call stores the document and throws (the managers' cache is a
  string), so the hash is not recorded: \<^verbatim>\<open>getDocumentByHash('H')\<close> returns null, and so
  does \<^verbatim>\<open>getDocumentByHash('H', 'sha1')\<close>.
\<close>

theorem insertDocument_hash_not_resolvable:
  "fst (insertDocument empty_index first_doc [Str ''work''] [Str ''note'']) = Throw TypeError
   \<and> documents after_tagged 1000 = Some \<lparr>doc_id = 1000, sha1 = ''H'', data = ''first''\<rparr>
   \<and> getDocumentByHash after_tagged ''H'' '''' = None
   \<and> getDocumentByHash after_tagged ''H'' ''sha1'' = None"
  by (simp add: after_tagged_def insertDocument_cases empty_index_def
      first_doc_def validateDocument_def getDocumentByHash_def)

subsection \<open>C8: schema lookup\<close>

text \<open>
  C8 at a concrete input. For the prefixed name data/abstr/note,
  \<^verbatim>\<open>getDocumentSchema\<close> strips the prefix and returns the note schema, while
  \<^verbatim>\<open>hasDocumentSchema\<close> looks the whole name up and returns false. On the bare name
  note the two agree.
\<close>

theorem hasDocumentSchema_ignores_prefix:
  "hasDocumentSchema ''data/abstr/note'' = False
   \<and> getDocumentSchema ''data/abstr/note'' = Some NoteSchema
   \<and> hasDocumentSchema ''note'' = True
   \<and> getDocumentSchema ''note'' = Some NoteSchema"
  by (simp add: hasDocumentSchema_def getDocumentSchema_def schema_property_def
      DOCUMENT_SCHEMAS_def object_prototype_names_def)


section \<open>Properties of the context tree\<close>

subsection \<open>The concrete tree\<close>

lemma path_names_reports: "path_names ''/work/reports'' = [''work'', ''reports'']"
  by (simp add: path_names_def)

lemma path_names_archive: "path_names ''/archive/reports'' = [''archive'', ''reports'']"
  by (simp add: path_names_def)

lemma reports_tree_eq:
  "reports_tree =
     \<lparr>root = TreeNode ''/'' rootLayer
        [TreeNode ''id-work'' \<lparr>layer_id = ''id-work'', layer_name = ''work''\<rparr>
          [TreeNode ''id-reports'' \<lparr>layer_id = ''id-reports'', layer_name = ''reports''\<rparr> []]],
      layers = [\<lparr>layer_id = ''id-work'', layer_name = ''work''\<rparr>,
                \<lparr>layer_id = ''id-reports'', layer_name = ''reports''\<rparr>],
      fresh_id = (\<lambda>ls name. ''id-'' @ name),
      index = Some (JNode ''/'' None [JNode ''id-work'' None [JNode ''id-reports'' None []]])\<rparr>"
  by (simp add: reports_tree_def insert_tree_def fresh_tree_def path_names_reports
      getLayerByName_def getLayerByID_def createLayer_def new_TreeNode_def getChild_def
      addChild_def hasChild_def hasChildren_def save_def Let_def)

subsection \<open>C1: move without the recursive flag\<close>

lemma children_to_parent_throws:
  "cs \<noteq> [] \<Longrightarrow> children_to_parent cs p = Inl TypeError"
  by (cases cs) (simp_all add: destructure_pair_def)

lemma insert_tree_never_truthy:
  "fst (insert_tree st path nodeArg ac) = Return r \<Longrightarrow> \<not> truthy r"
  by (auto simp: insert_tree_def split: if_splits prod.splits sum.splits bool.splits)

lemma moveRecursive_returns_false:
  "fst (moveRecursive st pathFrom pathTo) = Return r \<Longrightarrow> r = JFalse"
proof -
  assume a: "fst (moveRecursive st pathFrom pathTo) = Return r"
  have t: "\<And>n r' st'. insert_tree st pathTo n True = (Return r', st') \<Longrightarrow> \<not> truthy r'"
    using insert_tree_never_truthy[of st pathTo _ True] by (metis fst_conv)
  show ?thesis using a t
    by (auto simp: moveRecursive_def split: option.splits if_splits prod.splits outcome.splits)
qed

lemma move_returns_false:
  "fst (move st pathFrom pathTo False) = Return r \<Longrightarrow> r = JFalse"
proof -
  assume a: "fst (move st pathFrom pathTo False) = Return r"
  have t: "\<And>n r' st'. insert_tree st pathTo n True = (Return r', st') \<Longrightarrow> \<not> truthy r'"
    using insert_tree_never_truthy[of st pathTo _ True] by (metis fst_conv)
  show ?thesis using a t
    by (auto simp: move_def split: option.splits if_splits prod.splits outcome.splits sum.splits)
qed

lemma parent_path_reports: "parent_path ''/work/reports'' = ''/work''"
  by (simp add: parent_path_def)

lemma path_names_work: "path_names ''/work'' = [''work'']"
  by (simp add: path_names_def)

lemma parent_path_work: "parent_path ''/work'' = []"
  by (simp add: parent_path_def)

lemma getNode_reports:
  "getNode reports_tree ''/work/reports'' = Some [''id-work'', ''id-reports'']"
  "getNode reports_tree ''/work'' = Some [''id-work'']"
  "getNode reports_tree [] = Some []"
  by (simp_all add: getNode_def reports_tree_eq path_names_reports path_names_work
      getLayerByName_def getChild_def)

lemma move_reports:
  "move reports_tree ''/work/reports'' ''/archive/reports'' False =
    (Return JFalse,
     \<lparr>root = TreeNode ''/'' rootLayer
        [TreeNode ''id-work'' \<lparr>layer_id = ''id-work'', layer_name = ''work''\<rparr>
          [TreeNode ''id-reports'' \<lparr>layer_id = ''id-reports'', layer_name = ''reports''\<rparr> []],
         TreeNode ''id-archive'' \<lparr>layer_id = ''id-archive'', layer_name = ''archive''\<rparr>
          [TreeNode ''id-reports'' \<lparr>layer_id = ''id-reports'', layer_name = ''reports''\<rparr> []]],
      layers = [\<lparr>layer_id = ''id-work'', layer_name = ''work''\<rparr>,
                \<lparr>layer_id = ''id-reports'', layer_name = ''reports''\<rparr>,
                \<lparr>layer_id = ''id-archive'', layer_name = ''archive''\<rparr>],
      fresh_id = (\<lambda>ls name. ''id-'' @ name),
      index = Some (JNode ''/'' None
                [JNode ''id-work'' None [JNode ''id-reports'' None []],
                 JNode ''id-archive'' None [JNode ''id-reports'' None []]])\<rparr>)"
proof -
  have n: "node_at (root reports_tree) [''id-work'', ''id-reports'']
             = Some (TreeNode ''id-reports'' \<lparr>layer_id = ''id-reports'', layer_name = ''reports''\<rparr> [])"
    by (simp add: reports_tree_eq getChild_def)
  have i: "insert_tree reports_tree ''/archive/reports''
             (Some (TreeNode ''id-reports'' \<lparr>layer_id = ''id-reports'', layer_name = ''reports''\<rparr> [])) True
           = (Return JUndefined,
     \<lparr>root = TreeNode ''/'' rootLayer
        [TreeNode ''id-work'' \<lparr>layer_id = ''id-work'', layer_name = ''work''\<rparr>
          [TreeNode ''id-reports'' \<lparr>layer_id = ''id-reports'', layer_name = ''reports''\<rparr> []],
         TreeNode ''id-archive'' \<lparr>layer_id = ''id-archive'', layer_name = ''archive''\<rparr>
          [TreeNode ''id-reports'' \<lparr>layer_id = ''id-reports'', layer_name = ''reports''\<rparr> []]],
      layers = [\<lparr>layer_id = ''id-work'', layer_name = ''work''\<rparr>,
                \<lparr>layer_id = ''id-reports'', layer_name = ''reports''\<rparr>,
                \<lparr>layer_id = ''id-archive'', layer_name = ''archive''\<rparr>],
      fresh_id = (\<lambda>ls name. ''id-'' @ name),
      index = Some (JNode ''/'' None
                [JNode ''id-work'' None [JNode ''id-reports'' None []],
                 JNode ''id-archive'' None [JNode ''id-reports'' None []]])\<rparr>)"
    by (simp add: insert_tree_def reports_tree_eq path_names_archive
      getLayerByName_def getLayerByID_def createLayer_def new_TreeNode_def getChild_def
      addChild_def hasChild_def hasChildren_def save_def Let_def)
  show ?thesis
    by (simp add: move_def getNode_reports parent_path_reports n i new_TreeNode_def
          del: node_at.simps)
qed

lemma getNode_moved:
  "getNode moved_tree ''/work/reports'' = Some [''id-work'', ''id-reports'']"
  "getNode moved_tree ''/archive/reports'' = Some [''id-archive'', ''id-reports'']"
  by (simp_all add: getNode_def moved_tree_def move_reports path_names_reports
      path_names_archive getLayerByName_def getChild_def)

text \<open>
  C1 at a concrete input. After \<^verbatim>\<open>insert('/work/reports')\<close> on a new tree,
  \<^verbatim>\<open>move('/work/reports', '/archive/reports')\<close> creates the nodes of the target path
  and returns false: \<^verbatim>\<open>insert\<close> has no \<^verbatim>\<open>return true\<close>, so
  \<^verbatim>\<open>!this.insert(pathTo, targetNode)\<close> always holds and the statements that detach the
  source are never reached. \<^verbatim>\<open>getNode('/work/reports')\<close> still finds the source node.
\<close>

theorem move_leaves_source_in_place:
  "getNode reports_tree ''/work/reports'' = Some [''id-work'', ''id-reports'']
   \<and> fst (move reports_tree ''/work/reports'' ''/archive/reports'' False) = Return JFalse
   \<and> getNode moved_tree ''/work/reports'' = Some [''id-work'', ''id-reports'']
   \<and> getNode moved_tree ''/archive/reports'' = Some [''id-archive'', ''id-reports'']"
  by (simp add: getNode_reports getNode_moved move_reports)

subsection \<open>C6: remove without the recursive flag\<close>

lemma getNode_loop_node_at:
  "getNode_loop ls n names = Some loc \<Longrightarrow> node_at n loc \<noteq> None"
proof (induction names arbitrary: n loc)
  case Nil
  then show ?case by simp
next
  case (Cons a names)
  then show ?case by (auto split: option.splits)
qed

lemma getNode_node_at: "getNode st path = Some loc \<Longrightarrow> node_at (root st) loc \<noteq> None"
  by (auto simp: getNode_def dest: getNode_loop_node_at split: if_splits)

lemma remove_tree_with_children:
  assumes "getNode st path = Some loc" and "getNode st (parent_path path) = Some ploc"
    and "node_at (root st) loc = Some n" and "hasChildren n"
  shows "remove_tree st path False = (Throw TypeError, st)"
proof -
  from getNode_node_at[OF assms(2)] obtain p where p: "node_at (root st) ploc = Some p" by auto
  have "children_to_parent (children n) p = Inl TypeError"
    using assms(4) by (simp add: children_to_parent_throws hasChildren_def)
  then show ?thesis using assms p by (simp add: remove_tree_def)
qed

text \<open>
  C6 at a concrete input. In the tree holding /work/reports, the node work has a child.
  \<^verbatim>\<open>remove('/work')\<close> throws \<^verbatim>\<open>TypeError\<close> in the loop over the children and
  leaves the tree as it was: the child is not promoted and the node is not detached. On
  the leaf /work/reports the same call detaches the node and returns true.
\<close>

theorem remove_with_children_throws:
  "getNode reports_tree ''/work'' = Some [''id-work'']
   \<and> map_option hasChildren (node_at (root reports_tree) [''id-work'']) = Some True
   \<and> remove_tree reports_tree ''/work'' False = (Throw TypeError, reports_tree)
   \<and> fst (remove_tree reports_tree ''/work/reports'' False) = Return JTrue
   \<and> getNode (snd (remove_tree reports_tree ''/work/reports'' False)) ''/work/reports'' = None"
proof -
  have n: "node_at (root reports_tree) [''id-work'']
             = Some (TreeNode ''id-work'' \<lparr>layer_id = ''id-work'', layer_name = ''work''\<rparr>
          [TreeNode ''id-reports'' \<lparr>layer_id = ''id-reports'', layer_name = ''reports''\<rparr> []])"
    by (simp add: reports_tree_eq getChild_def)
  have h: "hasChildren (TreeNode ''id-work'' \<lparr>layer_id = ''id-work'', layer_name = ''work''\<rparr>
          [TreeNode ''id-reports'' \<lparr>layer_id = ''id-reports'', layer_name = ''reports''\<rparr> []])"
    by (simp add: hasChildren_def)
  have r: "remove_tree reports_tree ''/work'' False = (Throw TypeError, reports_tree)"
    by (rule remove_tree_with_children[OF getNode_reports(2) _ n h])
       (simp add: parent_path_work getNode_reports)
  have m: "node_at (root reports_tree) [''id-work'', ''id-reports'']
             = Some (TreeNode ''id-reports'' \<lparr>layer_id = ''id-reports'', layer_name = ''reports''\<rparr> [])"
    by (simp add: reports_tree_eq getChild_def)
  have l: "remove_tree reports_tree ''/work/reports'' False =
     (Return JTrue, save (reports_tree\<lparr>root := TreeNode ''/'' rootLayer
        [TreeNode ''id-work'' \<lparr>layer_id = ''id-work'', layer_name = ''work''\<rparr> []]\<rparr>))"
    by (simp add: remove_tree_def getNode_reports parent_path_reports n m hasChildren_def
        removeChild_def del: node_at.simps)
       (simp add: reports_tree_eq)
  have g: "getNode (save (reports_tree\<lparr>root := TreeNode ''/'' rootLayer
        [TreeNode ''id-work'' \<lparr>layer_id = ''id-work'', layer_name = ''work''\<rparr> []]\<rparr>))
          ''/work/reports'' = None"
    by (simp add: getNode_def path_names_reports save_def reports_tree_eq getLayerByName_def
        getChild_def)
  show ?thesis
    by (simp add: getNode_reports n h r l g del: node_at.simps)
qed

subsection \<open>C5: save and load\<close>






lemma getChild_None_iff: "getChild n i = None \<longleftrightarrow> i \<notin> set (map node_id (children n))"
  by (auto simp: getChild_def find_None_iff)






lemma registry_le_refl [simp]: "registry_le ls ls"
  by (simp add: registry_le_def)

lemma registry_le_trans: "registry_le a b \<Longrightarrow> registry_le b c \<Longrightarrow> registry_le a c"
  by (simp add: registry_le_def)

lemma registry_le_append [simp]: "registry_le ls (ls @ ext)"
  by (auto simp: registry_le_def getLayerByID_def find_None_iff)

lemma tree_ok_mono: "registry_le ls ls' \<Longrightarrow> tree_ok ls t \<Longrightarrow> tree_ok ls' t"
proof (induction t)
  case (TreeNode i p cs)
  then show ?case by (auto simp: registry_le_def)
qed

lemma tree_ok_children: "tree_ok ls n \<Longrightarrow> c \<in> set (children n) \<Longrightarrow> tree_ok ls c"
  by (cases n) auto

lemma getChild_Some: "getChild n i = Some c \<Longrightarrow> c \<in> set (children n) \<and> node_id c = i"
  by (auto simp: getChild_def find_Some_iff)

lemma update_first_find_Some:
  "find P cs = Some c \<Longrightarrow> \<exists>pre post. cs = pre @ c # post \<and> update_first P g cs = pre @ g c # post"
proof (induction cs)
  case Nil
  then show ?case by simp
next
  case (Cons x cs)
  show ?case
  proof (cases "P x")
    case True
    with Cons.prems have "x = c" by simp
    then show ?thesis using True by (intro exI[of _ "[]"] exI[of _ cs]) simp
  next
    case False
    with Cons.prems have "find P cs = Some c" by simp
    from Cons.IH[OF this] obtain pre post where
      "cs = pre @ c # post" "update_first P g cs = pre @ g c # post" by blast
    then show ?thesis using False by (intro exI[of _ "x # pre"] exI[of _ post]) simp
  qed
qed

lemma update_first_find_None: "find P cs = None \<Longrightarrow> update_first P g cs = cs"
  by (induction cs) (auto split: if_splits)

lemma replace_child_ok:
  assumes "tree_ok ls n" and "getChild n i = Some c" and "tree_ok ls (g c)"
    and "node_id (g c) = node_id c"
  shows "tree_ok ls (TreeNode (node_id n) (payload n)
                      (update_first (\<lambda>x. node_id x = i) g (children n)))"
proof -
  from assms(2) have f: "find (\<lambda>x. node_id x = i) (children n) = Some c"
    by (simp add: getChild_def)
  from update_first_find_Some[OF f, of g] obtain pre post where
    cs: "children n = pre @ c # post"
    and u: "update_first (\<lambda>x. node_id x = i) g (children n) = pre @ g c # post"
    by auto
  show ?thesis using assms(1,3,4) cs u by (cases n) auto
qed

lemma addChild_ok:
  assumes "tree_ok ls n" and "tree_ok ls c"
  shows "tree_ok ls (addChild n c)" and "node_id (addChild n c) = node_id n"
  using assms getChild_None_iff[of n "node_id c"]
  by (cases n; auto simp: addChild_def hasChild_def)+

lemma removeChild_ok:
  assumes "tree_ok ls n"
  shows "tree_ok ls (removeChild n i)" and "node_id (removeChild n i) = node_id n"
  using assms by (cases n; auto simp: removeChild_def distinct_map_filter)+

lemma createLayer_le: "createLayer f ls name = (l, ls1) \<Longrightarrow> registry_le ls ls1"
  by (auto simp: createLayer_def Let_def)

lemma new_TreeNode_ok:
  "new_TreeNode i (getLayerByID ls i) = Inr c \<Longrightarrow> tree_ok ls c \<and> node_id c = i"
  by (auto simp: new_TreeNode_def split: if_splits option.splits)

lemma insert_loop_ok:
  assumes "tree_ok ls cur" and "insert_loop f ac nodeArg ls cur names = (r, ls', cur')"
  shows "tree_ok ls' cur' \<and> node_id cur' = node_id cur \<and> registry_le ls ls'"
  using assms
proof (induction names arbitrary: ls cur r ls' cur')
  case Nil
  show ?case
  proof (cases nodeArg)
    case None
    then show ?thesis using Nil by simp
  next
    case (Some n)
    show ?thesis
    proof (cases "getChild cur (node_id n)")
      case None
      then show ?thesis using Nil Some by simp
    next
      case c: (Some child)
      then have "tree_ok ls child" using Nil(1) getChild_Some tree_ok_children by blast
      then show ?thesis using Nil Some c addChild_ok[of ls cur child] by simp
    qed
  qed
next
  case (Cons name rest)
  let ?look = "case getLayerByName ls name of
                 Some l \<Rightarrow> Some (l, ls)
               | None \<Rightarrow> if ac then Some (createLayer f ls name) else None"
  show ?case
  proof (cases ?look)
    case None
    then show ?thesis using Cons.prems by simp
  next
    case (Some a)
    obtain layer ls1 where a: "a = (layer, ls1)" by (cases a)
    have le1: "registry_le ls ls1"
      using Some a by (auto split: option.splits if_splits dest: createLayer_le)
    have ok1: "tree_ok ls1 cur" using le1 Cons.prems(1) by (rule tree_ok_mono)
    show ?thesis
    proof (cases "getChild cur (layer_id layer)")
      case c: (Some child)
      obtain r0 ls2 child1 where il: "insert_loop f ac nodeArg ls1 child rest = (r0, ls2, child1)"
        by (cases "insert_loop f ac nodeArg ls1 child rest") auto
      have "tree_ok ls1 child" using ok1 c getChild_Some tree_ok_children by blast
      from Cons.IH[OF this il] have ih: "tree_ok ls2 child1" "node_id child1 = node_id child"
        "registry_le ls1 ls2" by simp_all
      have ok2: "tree_ok ls2 cur" using ih(3) ok1 by (rule tree_ok_mono)
      have "tree_ok ls2 (TreeNode (node_id cur) (payload cur)
                      (update_first (\<lambda>x. node_id x = layer_id layer) (\<lambda>x. child1) (children cur)))"
        by (rule replace_child_ok[OF ok2 c]) (use ih in simp_all)
      moreover have "r = r0" "ls' = ls2"
        "cur' = TreeNode (node_id cur) (payload cur)
                      (update_first (\<lambda>x. node_id x = layer_id layer) (\<lambda>x. child1) (children cur))"
        using Cons.prems(2) Some a c il by simp_all
      ultimately show ?thesis using le1 ih(3) by (auto intro: registry_le_trans)
    next
      case None
      show ?thesis
      proof (cases "new_TreeNode (layer_id layer) (getLayerByID ls1 (layer_id layer))")
        case (Inl e)
        then show ?thesis using Cons.prems(2) Some a None ok1 le1 by simp
      next
        case (Inr child)
        obtain r0 ls2 child1 where il: "insert_loop f ac nodeArg ls1 child rest = (r0, ls2, child1)"
          by (cases "insert_loop f ac nodeArg ls1 child rest") auto
        have "tree_ok ls1 child" using new_TreeNode_ok[OF Inr] by simp
        from Cons.IH[OF this il] have ih: "tree_ok ls2 child1" "node_id child1 = node_id child"
          "registry_le ls1 ls2" by simp_all
        have ok2: "tree_ok ls2 cur" using ih(3) ok1 by (rule tree_ok_mono)
        have "r = r0" "ls' = ls2" "cur' = addChild cur child1"
          using Cons.prems(2) Some a None Inr il by simp_all
        then show ?thesis using addChild_ok[OF ok2 ih(1)] le1 ih(3)
          by (auto intro: registry_le_trans)
      qed
    qed
  qed
qed

lemma save_fields [simp]: "root (save st) = root st" "layers (save st) = layers st"
  "fresh_id (save st) = fresh_id st"
  by (simp_all add: save_def)

lemma insert_tree_ok:
  assumes "tree_ok (layers st) (root st)"
  shows "tree_ok (layers (snd (insert_tree st path nodeArg ac))) (root (snd (insert_tree st path nodeArg ac)))"
proof -
  obtain r ls' cur' where
    il: "insert_loop (fresh_id st) ac nodeArg (layers st) (root st) (path_names path) = (r, ls', cur')"
    by (cases "insert_loop (fresh_id st) ac nodeArg (layers st) (root st) (path_names path)") auto
  from insert_loop_ok[OF assms il] have "tree_ok ls' cur'" by simp
  then show ?thesis using assms il
    by (auto simp: insert_tree_def split: sum.splits bool.splits)
qed

lemma node_at_ok: "tree_ok ls t \<Longrightarrow> node_at t loc = Some p \<Longrightarrow> tree_ok ls p"
proof (induction loc arbitrary: t)
  case Nil
  then show ?case by simp
next
  case (Cons i loc)
  then show ?case
    by (auto split: option.splits dest!: getChild_Some intro: tree_ok_children)
qed

lemma modify_at_node_id: "loc \<noteq> [] \<Longrightarrow> node_id (modify_at loc g t) = node_id t"
  by (cases loc) simp_all

lemma modify_at_const_ok:
  assumes "tree_ok ls t" and "node_at t loc = Some p" and "tree_ok ls v" and "node_id v = node_id p"
  shows "tree_ok ls (modify_at loc (\<lambda>x. v) t) \<and> node_id (modify_at loc (\<lambda>x. v) t) = node_id t"
  using assms(1,2)
proof (induction loc arbitrary: t)
  case Nil
  then show ?case using assms(3,4) by simp
next
  case (Cons i loc)
  from Cons.prems(2) obtain c where c: "getChild t i = Some c" and n: "node_at c loc = Some p"
    by (auto split: option.splits)
  have "tree_ok ls c" using Cons.prems(1) c getChild_Some tree_ok_children by blast
  from Cons.IH[OF this n] have ih: "tree_ok ls (modify_at loc (\<lambda>x. v) c)"
    "node_id (modify_at loc (\<lambda>x. v) c) = node_id c" by simp_all
  have "tree_ok ls (TreeNode (node_id t) (payload t)
          (update_first (\<lambda>x. node_id x = i) (modify_at loc (\<lambda>x. v)) (children t)))"
    by (rule replace_child_ok[OF Cons.prems(1) c]) (use ih in simp_all)
  then show ?case by simp
qed

lemma children_to_parent_Inr: "children_to_parent cs p = Inr q \<Longrightarrow> q = p"
  by (cases cs) (simp_all add: destructure_pair_def)

lemma remove_tree_ok:
  assumes "tree_ok (layers st) (root st)"
  shows "tree_ok (layers (snd (remove_tree st path rec))) (root (snd (remove_tree st path rec)))"
proof (cases "getNode st path")
  case None
  then show ?thesis using assms by (simp add: remove_tree_def)
next
  case loc: (Some loc)
  show ?thesis
  proof (cases "getNode st (parent_path path)")
    case None
    then show ?thesis using assms loc by (simp add: remove_tree_def)
  next
    case ploc: (Some ploc)
    from getNode_node_at[OF loc] obtain n where n: "node_at (root st) loc = Some n" by auto
    from getNode_node_at[OF ploc] obtain p where p: "node_at (root st) ploc = Some p" by auto
    have pk: "tree_ok (layers st) p" using assms p by (rule node_at_ok)
    let ?c = "if \<not> rec \<and> hasChildren n then children_to_parent (children n) p else Inr p"
    show ?thesis
    proof (cases ?c)
      case (Inl e)
      then show ?thesis using assms loc ploc n p by (simp add: remove_tree_def)
    next
      case (Inr q)
      then have q: "q = p" by (auto split: if_splits dest: children_to_parent_Inr)
      have "tree_ok (layers st) (modify_at ploc (\<lambda>x. removeChild p (node_id n)) (root st))"
        using modify_at_const_ok[OF assms p, of "removeChild p (node_id n)"] removeChild_ok[OF pk]
        by simp
      then show ?thesis using loc ploc n p Inr q by (simp add: remove_tree_def)
    qed
  qed
qed

lemma moveRecursive_ok:
  assumes "tree_ok (layers st) (root st)"
  shows "tree_ok (layers (snd (moveRecursive st a b))) (root (snd (moveRecursive st a b)))"
proof -
  have i: "\<And>n. tree_ok (layers (snd (insert_tree st b n True))) (root (snd (insert_tree st b n True)))"
    using assms by (rule insert_tree_ok)
  have t: "\<And>n r st'. insert_tree st b n True = (Return r, st') \<Longrightarrow> \<not> truthy r"
    using insert_tree_never_truthy[of st b _ True] by (metis fst_conv)
  show ?thesis
  proof (cases "getNode st a")
    case None
    then show ?thesis using assms by (simp add: moveRecursive_def)
  next
    case (Some loc)
    from getNode_node_at[OF Some] obtain n where n: "node_at (root st) loc = Some n" by auto
    obtain out st1 where it: "insert_tree st b (Some n) True = (out, st1)"
      by (cases "insert_tree st b (Some n) True") auto
    have ok1: "tree_ok (layers st1) (root st1)" using i[of "Some n"] it by simp
    show ?thesis
    proof (cases out)
      case (Return r)
      with t it have "\<not> truthy r" by blast
      then show ?thesis using Some n it Return ok1 assms by (simp add: moveRecursive_def)
    next
      case (Throw e)
      then show ?thesis using Some n it ok1 assms by (simp add: moveRecursive_def)
    qed
  qed
qed

lemma move_ok:
  assumes "tree_ok (layers st) (root st)"
  shows "tree_ok (layers (snd (move st a b rec))) (root (snd (move st a b rec)))"
proof (cases rec)
  case True
  then show ?thesis using moveRecursive_ok[OF assms] by (simp add: move_def)
next
  case False
  have i: "\<And>n. tree_ok (layers (snd (insert_tree st b n True))) (root (snd (insert_tree st b n True)))"
    using assms by (rule insert_tree_ok)
  have t: "\<And>n r st'. insert_tree st b n True = (Return r, st') \<Longrightarrow> \<not> truthy r"
    using insert_tree_never_truthy[of st b _ True] by (metis fst_conv)
  show ?thesis
  proof (cases "getNode st a")
    case None
    then show ?thesis using assms False by (simp add: move_def)
  next
    case loc: (Some loc)
    show ?thesis
    proof (cases "getNode st (parent_path a)")
      case None
      then show ?thesis using assms False loc by (simp add: move_def)
    next
      case ploc: (Some ploc)
      from getNode_node_at[OF loc] obtain n where n: "node_at (root st) loc = Some n" by auto
      show ?thesis
      proof (cases "new_TreeNode (layer_id (payload n)) (Some (payload n))")
        case (Inl e)
        then show ?thesis using assms False loc ploc n by (simp add: move_def)
      next
        case (Inr target)
        obtain out st1 where it: "insert_tree st b (Some target) True = (out, st1)"
          by (cases "insert_tree st b (Some target) True") auto
        have ok1: "tree_ok (layers st1) (root st1)" using i[of "Some target"] it by simp
        show ?thesis
        proof (cases out)
          case (Return r)
          with t it have "\<not> truthy r" by blast
          then show ?thesis using False loc ploc n Inr it Return ok1 by (simp add: move_def)
        next
          case (Throw e)
          then show ?thesis using False loc ploc n Inr it ok1 by (simp add: move_def)
        qed
      qed
    qed
  qed
qed

lemma buildTree_children_ok:
  assumes "\<And>c ls r ls'. c \<in> set js \<Longrightarrow> buildTree f ac ls c = (r, ls') \<Longrightarrow>
              registry_le ls ls' \<and> (\<forall>t. r = Inr t \<longrightarrow> tree_ok ls' t)"
    and "tree_ok ls n" and "buildTree_children f ac ls n js = (r, ls')"
  shows "registry_le ls ls' \<and> (\<forall>t. r = Inr t \<longrightarrow> tree_ok ls' t)"
  using assms
proof (induction js arbitrary: ls n)
  case Nil
  then show ?case by auto
next
  case (Cons j js)
  obtain r1 ls1 where b: "buildTree f ac ls j = (r1, ls1)" by (cases "buildTree f ac ls j") auto
  from Cons.prems(1)[OF _ b] have le1: "registry_le ls ls1"
    and ok1: "\<And>t. r1 = Inr t \<Longrightarrow> tree_ok ls1 t" by simp_all
  show ?case
  proof (cases r1)
    case (Inl e)
    then show ?thesis using Cons.prems(3) b le1 by auto
  next
    case (Inr childNode)
    have n1: "tree_ok ls1 n" using le1 Cons.prems(2) by (rule tree_ok_mono)
    have a: "tree_ok ls1 (addChild n childNode)" using addChild_ok(1)[OF n1 ok1[OF Inr]] .
    have c: "buildTree_children f ac ls1 (addChild n childNode) js = (r, ls')"
      using Cons.prems(3) b Inr by simp
    have "registry_le ls1 ls' \<and> (\<forall>t. r = Inr t \<longrightarrow> tree_ok ls' t)"
    proof (rule Cons.IH[OF _ a c])
      fix c0 ls0 r0 ls0'
      assume "c0 \<in> set js" and "buildTree f ac ls0 c0 = (r0, ls0')"
      then show "registry_le ls0 ls0' \<and> (\<forall>t. r0 = Inr t \<longrightarrow> tree_ok ls0' t)"
        using Cons.prems(1)[of c0 ls0 r0 ls0'] by simp
    qed
    then show ?thesis using le1 by (auto intro: registry_le_trans)
  qed
qed

lemma buildTree_ok:
  "buildTree f ac ls j = (r, ls') \<Longrightarrow> registry_le ls ls' \<and> (\<forall>t. r = Inr t \<longrightarrow> tree_ok ls' t)"
proof (induction j arbitrary: ls r ls')
  case (JNode i nm cs)
  let ?found = "if i = ''/'' \<or> nm = Some ''/'' then Some rootLayer else getLayerByID ls i"
  show ?case
  proof (cases "?found = None \<and> (nm = None \<or> nm = Some [] \<or> \<not> ac)")
    case True
    then show ?thesis using JNode.prems by (auto simp: Let_def)
  next
    case False
    obtain layer ls1 where l: "(case ?found of Some l \<Rightarrow> (l, ls) | None \<Rightarrow> createLayer f ls (the nm))
                                = (layer, ls1)"
      by (cases "case ?found of Some l \<Rightarrow> (l, ls) | None \<Rightarrow> createLayer f ls (the nm)") auto
    have le1: "registry_le ls ls1"
      using l by (auto split: option.splits dest: createLayer_le)
    let ?made = "if layer_id layer = ''/'' then new_TreeNode ''/'' (Some rootLayer)
                 else new_TreeNode (layer_id layer) (getLayerByID ls1 (layer_id layer))"
    show ?thesis
    proof (cases ?made)
      case (Inl e)
      then show ?thesis using JNode.prems False l le1 by (auto simp: Let_def)
    next
      case (Inr n)
      have n: "tree_ok ls1 n"
        using Inr new_TreeNode_ok[of "layer_id layer" ls1 n]
        by (auto simp: new_TreeNode_def split: if_splits)
      have c: "buildTree_children f ac ls1 n cs = (r, ls')"
        using JNode.prems False l Inr by (simp add: Let_def)
      have "registry_le ls1 ls' \<and> (\<forall>t. r = Inr t \<longrightarrow> tree_ok ls' t)"
      proof (rule buildTree_children_ok[OF _ n c])
        fix c0 ls0 r0 ls0'
        assume "c0 \<in> set cs" and "buildTree f ac ls0 c0 = (r0, ls0')"
        then show "registry_le ls0 ls0' \<and> (\<forall>t. r0 = Inr t \<longrightarrow> tree_ok ls0' t)"
          by (rule JNode.IH)
      qed
      then show ?thesis using le1 by (auto intro: registry_le_trans)
    qed
  qed
qed

lemma load_ok:
  assumes "tree_ok (layers st) (root st)"
  shows "tree_ok (layers (snd (load st js))) (root (snd (load st js)))"
proof (cases js)
  case None
  then show ?thesis using assms by (simp add: load_def)
next
  case (Some j)
  obtain r ls' where b: "buildTree (fresh_id st) True (layers st) j = (r, ls')"
    by (cases "buildTree (fresh_id st) True (layers st) j") auto
  from buildTree_ok[OF b] have le: "registry_le (layers st) ls'"
    and ok: "\<And>t. r = Inr t \<Longrightarrow> tree_ok ls' t" by simp_all
  show ?thesis
  proof (cases r)
    case (Inl e)
    then show ?thesis using Some b tree_ok_mono[OF le assms]
      by (simp add: load_def buildTreeFromJson_def)
  next
    case (Inr t)
    then show ?thesis using Some b ok[OF Inr] by (simp add: load_def buildTreeFromJson_def)
  qed
qed

lemma modify_at_ok:
  assumes "tree_ok ls t" and "node_at t loc = Some p" and "tree_ok ls (g p)"
    and "node_id (g p) = node_id p"
  shows "tree_ok ls (modify_at loc g t) \<and> node_id (modify_at loc g t) = node_id t"
  using assms(1,2)
proof (induction loc arbitrary: t)
  case Nil
  then show ?case using assms(3,4) by simp
next
  case (Cons i loc)
  from Cons.prems(2) obtain c where c: "getChild t i = Some c" and n: "node_at c loc = Some p"
    by (auto split: option.splits)
  have "tree_ok ls c" using Cons.prems(1) c getChild_Some tree_ok_children by blast
  from Cons.IH[OF this n] have ih: "tree_ok ls (modify_at loc g c)"
    "node_id (modify_at loc g c) = node_id c" by simp_all
  have "tree_ok ls (TreeNode (node_id t) (payload t)
          (update_first (\<lambda>x. node_id x = i) (modify_at loc g) (children t)))"
    by (rule replace_child_ok[OF Cons.prems(1) c]) (use ih in simp_all)
  then show ?case by simp
qed

lemma insertNode_ok:
  assumes "tree_ok (layers st) (root st)"
    and "\<And>n. nodeArg = Some n \<Longrightarrow> tree_ok (layers st) n"
  shows "tree_ok (layers (snd (insertNode st path nodeArg)))
           (root (snd (insertNode st path nodeArg)))"
proof (cases "getNode st path")
  case None
  then show ?thesis using assms(1) by (simp add: insertNode_def)
next
  case loc: (Some loc)
  show ?thesis
  proof (cases nodeArg)
    case None
    then show ?thesis using assms(1) loc by (simp add: insertNode_def)
  next
    case (Some n)
    let ?g = "\<lambda>targetNode. if \<not> hasChild targetNode (node_id n)
                             then addChild targetNode n else targetNode"
    from getNode_node_at[OF loc] obtain p where p: "node_at (root st) loc = Some p" by auto
    have pk: "tree_ok (layers st) p" using assms(1) p by (rule node_at_ok)
    have nk: "tree_ok (layers st) n" using assms(2) Some by simp
    have g: "tree_ok (layers st) (?g p)" "node_id (?g p) = node_id p"
      using addChild_ok[OF pk nk] pk by simp_all
    have "tree_ok (layers st) (modify_at loc ?g (root st))"
      using modify_at_ok[OF assms(1) p, of ?g] g by simp
    then show ?thesis using loc Some by (simp add: insertNode_def)
  qed
qed





end
